theory Spec2Isabelle
  imports Complex_Main "HOL-Library.Multiset" "HOL-Library.AList"
begin

section \<open>Python values\<close>

text \<open>
  The exceptions the modelled functions can raise. A function that can raise returns
  \<open>error + 'a\<close>, with \<open>Inl\<close> for the exception.
\<close>

datatype error = IndexError | ValueError | FileNotFoundError | Unmodelled

text \<open>
  \<open>Unmodelled\<close> is no exception of Python: it marks an input outside what a
  definition below models of a library function, where nothing is said about the code.

  The extractor and the store are modelled on exact values: samples and fingerprint
  values are real numbers. The matcher compares sums computed in floating point, where
  rounding, overflow and NaN decide the outcome of \<open>dist < best_distance\<close>; it is
  modelled on Python floats, in the section on matching.
\<close>

text \<open>
  \<open>round(x, 1)\<close>: Python rounds a float to one decimal place, rounding a tie to the
  even neighbour.
\<close>

definition round_half_even :: "real \<Rightarrow> int" where
  "round_half_even x =
     (let f = \<lfloor>x\<rfloor>; d = x - of_int f
      in if d < 1 / 2 then f
         else if 1 / 2 < d then f + 1
         else if even f then f else f + 1)"

definition py_round1 :: "real \<Rightarrow> real" where
  "py_round1 x = of_int (round_half_even (x * 10)) / 10"

text \<open>
  A traversal that stops at the first exception, as a list comprehension whose body
  raises does.
\<close>

fun map_result :: "('a \<Rightarrow> error + 'b) \<Rightarrow> 'a list \<Rightarrow> error + 'b list" where
  "map_result f [] = Inr []"
| "map_result f (x # xs) =
     (case f x of
        Inl e \<Rightarrow> Inl e
      | Inr y \<Rightarrow> (case map_result f xs of Inl e \<Rightarrow> Inl e | Inr ys \<Rightarrow> Inr (y # ys)))"

section \<open>fingerprinter.py: extraction\<close>

text \<open>\<open>range(start, stop, step)\<close> for a positive step.\<close>

function range_step :: "nat \<Rightarrow> nat \<Rightarrow> nat \<Rightarrow> nat list" where
  "range_step start stop step =
     (if step = 0 \<or> stop \<le> start then []
      else start # range_step (start + step) stop step)"
  by pat_completeness auto
termination
  by (relation "measure (\<lambda>(start, stop, step). stop - start)") auto

declare range_step.simps [simp del]

text \<open>
  \<open>chunks = [y[offset : offset + sr] for offset in range(0, len(y), sr)]\<close>: a slice
  that runs past the end of \<open>y\<close> is cut at the end.
\<close>

definition chunks_of :: "real list \<Rightarrow> nat \<Rightarrow> real list list" where
  "chunks_of y sr = map (\<lambda>offset. take sr (drop offset y)) (range_step 0 (length y) sr)"

text \<open>
  \<open>round(float(np.max(np.abs(chunk))), 1)\<close>: \<open>np.max\<close> of an empty array raises
  ValueError.
\<close>

fun chunk_peak :: "real list \<Rightarrow> error + real" where
  "chunk_peak [] = Inl ValueError"
| "chunk_peak (x # xs) = Inr (py_round1 (fold max (map abs xs) \<bar>x\<bar>))"

text \<open>
  \<open>extract_fingerprint\<close> on the decoded audio \<open>(y, sr)\<close> that \<open>librosa.load\<close>
  returns (the decoder itself is outside the repository). \<open>range\<close> raises ValueError on
  a zero step, and \<open>chunks.pop()\<close> raises IndexError on an empty list; otherwise it
  removes the last chunk.
\<close>

definition extract_fingerprint :: "real list \<Rightarrow> nat \<Rightarrow> error + real list" where
  "extract_fingerprint y sr =
     (if sr = 0 then Inl ValueError
      else let chunks = chunks_of y sr
           in if chunks = [] then Inl IndexError
              else map_result chunk_peak (butlast chunks))"

section \<open>fingerprinter.py: matching\<close>

text \<open>
  A Python float is a finite number, an infinity or NaN. The finite floats are the IEEE
  doubles, a subset of the reals that \<open>Num\<close> does not single out; the sign of zero is
  not modelled.
\<close>

datatype pyfloat = Num real | PosInf | NegInf | NaN

text \<open>
  The result of \<open>-\<close> or \<open>+\<close> on two finite floats is the exact result rounded to a
  double, or an infinity when it overflows; that rounding is the parameter \<open>rnd\<close> of
  the two operations. On infinities and NaN the operations follow IEEE 754; \<open>abs\<close> is
  exact.
\<close>

fun float_sub :: "(real \<Rightarrow> pyfloat) \<Rightarrow> pyfloat \<Rightarrow> pyfloat \<Rightarrow> pyfloat" where
  "float_sub rnd (Num x) (Num y) = rnd (x - y)"
| "float_sub rnd NaN b = NaN"
| "float_sub rnd a NaN = NaN"
| "float_sub rnd PosInf PosInf = NaN"
| "float_sub rnd NegInf NegInf = NaN"
| "float_sub rnd PosInf b = PosInf"
| "float_sub rnd NegInf b = NegInf"
| "float_sub rnd (Num x) PosInf = NegInf"
| "float_sub rnd (Num x) NegInf = PosInf"

fun float_add :: "(real \<Rightarrow> pyfloat) \<Rightarrow> pyfloat \<Rightarrow> pyfloat \<Rightarrow> pyfloat" where
  "float_add rnd (Num x) (Num y) = rnd (x + y)"
| "float_add rnd NaN b = NaN"
| "float_add rnd a NaN = NaN"
| "float_add rnd PosInf NegInf = NaN"
| "float_add rnd NegInf PosInf = NaN"
| "float_add rnd PosInf b = PosInf"
| "float_add rnd NegInf b = NegInf"
| "float_add rnd (Num x) PosInf = PosInf"
| "float_add rnd (Num x) NegInf = NegInf"

fun float_abs :: "pyfloat \<Rightarrow> pyfloat" where
  "float_abs (Num x) = Num \<bar>x\<bar>"
| "float_abs PosInf = PosInf"
| "float_abs NegInf = PosInf"
| "float_abs NaN = NaN"

text \<open>
  The comparison \<open>a < b\<close>: false whenever an operand is NaN, and nothing is below
  \<open>-inf\<close> or above \<open>+inf\<close>.
\<close>

fun float_lt :: "pyfloat \<Rightarrow> pyfloat \<Rightarrow> bool" where
  "float_lt (Num x) (Num y) = (x < y)"
| "float_lt NaN b = False"
| "float_lt a NaN = False"
| "float_lt PosInf b = False"
| "float_lt a NegInf = False"
| "float_lt NegInf b = True"
| "float_lt (Num x) PosInf = True"

text \<open>
  Two things depend on the platform and are parameters of the matcher, of which nothing is
  assumed: the rounding of a difference of finite floats, and how \<open>sum\<close> adds a
  non-empty sequence of floats (from the left, rounding each partial sum; since Python 3.12
  with a compensation term).
\<close>

record float_arith =
  round_to_double :: "real \<Rightarrow> pyfloat"
  sum_floats :: "pyfloat list \<Rightarrow> pyfloat"

text \<open>
  \<open>_l1_distance\<close> is
  \<open>sum(abs(q - reference[offset + j]) for j, q in enumerate(query))\<close>. \<open>sum\<close>
  consumes the generator of the terms: \<open>reference[k]\<close> raises IndexError when \<open>k\<close> is
  past the end, whatever was added before, and \<open>k\<close>, which is \<open>offset + j\<close>, is never
  negative. The sum of no term is the integer 0.
\<close>

fun l1_terms :: "float_arith \<Rightarrow> pyfloat list \<Rightarrow> pyfloat list \<Rightarrow> nat \<Rightarrow> error + pyfloat list" where
  "l1_terms ar [] reference k = Inr []"
| "l1_terms ar (q # qs) reference k =
     (if k < length reference
      then (case l1_terms ar qs reference (Suc k) of
              Inl e \<Rightarrow> Inl e
            | Inr ts \<Rightarrow> Inr (float_abs (float_sub (round_to_double ar) q (reference ! k)) # ts))
      else Inl IndexError)"

definition py_sum :: "float_arith \<Rightarrow> pyfloat list \<Rightarrow> pyfloat" where
  "py_sum ar ts = (if ts = [] then Num 0 else sum_floats ar ts)"

definition l1_distance ::
  "float_arith \<Rightarrow> pyfloat list \<Rightarrow> pyfloat list \<Rightarrow> nat \<Rightarrow> error + pyfloat" where
  "l1_distance ar query reference offset =
     (case l1_terms ar query reference offset of
        Inl e \<Rightarrow> Inl e
      | Inr ts \<Rightarrow> Inr (py_sum ar ts))"

text \<open>
  The loop of \<open>best_match_position\<close> over the offsets still to visit, with the state
  \<open>(best_offset, best_distance)\<close>. The source's \<open>dist\<close> is written \<open>d\<close>,
  \<open>dist\<close> being a constant of the library.
\<close>

fun scan_offsets ::
  "float_arith \<Rightarrow> pyfloat list \<Rightarrow> pyfloat list \<Rightarrow> nat list \<Rightarrow> int \<times> pyfloat \<Rightarrow>
     error + int \<times> pyfloat" where
  "scan_offsets ar query reference [] best = Inr best"
| "scan_offsets ar query reference (offset # rest) (best_offset, best_distance) =
     (case l1_distance ar query reference offset of
        Inl e \<Rightarrow> Inl e
      | Inr d \<Rightarrow>
          if float_lt d best_distance
          then scan_offsets ar query reference rest (int offset, d)
          else scan_offsets ar query reference rest (best_offset, best_distance))"

definition best_match_position ::
  "float_arith \<Rightarrow> pyfloat list \<Rightarrow> pyfloat list \<Rightarrow> error + int \<times> pyfloat" where
  "best_match_position ar query reference =
     (let max_offset = int (length reference) - int (length query)
      in if max_offset < 0 then Inr (- 1, PosInf)
         else scan_offsets ar query reference [0 ..< nat (max_offset + 1)] (- 1, PosInf))"

text \<open>
  The loop of \<open>find_best_video\<close> over \<open>enumerate(references)\<close>, with the state
  \<open>(best_video, best_frame, best_distance)\<close>.
\<close>

fun scan_videos ::
  "float_arith \<Rightarrow> pyfloat list \<Rightarrow> (nat \<times> pyfloat list) list \<Rightarrow> int \<times> int \<times> pyfloat \<Rightarrow>
     error + int \<times> int \<times> pyfloat" where
  "scan_videos ar query [] best = Inr best"
| "scan_videos ar query ((video_idx, ref) # rest) (best_video, best_frame, best_distance) =
     (case best_match_position ar query ref of
        Inl e \<Rightarrow> Inl e
      | Inr (frame, d) \<Rightarrow>
          if float_lt d best_distance
          then scan_videos ar query rest (int video_idx, frame, d)
          else scan_videos ar query rest (best_video, best_frame, best_distance))"

definition find_best_video ::
  "float_arith \<Rightarrow> pyfloat list \<Rightarrow> pyfloat list list \<Rightarrow> error + int \<times> int \<times> pyfloat" where
  "find_best_video ar query references =
     scan_videos ar query (enumerate 0 references) (- 1, - 1, PosInf)"

text \<open>
  The distance of the specification: the sum of \<open>|query[j] - reference[o + j]|\<close> over
  \<open>j\<close> in \<open>[0, len(query))\<close>, as Python's \<open>sum\<close> adds these terms.
\<close>

definition l1_window :: "float_arith \<Rightarrow> pyfloat list \<Rightarrow> pyfloat list \<Rightarrow> nat \<Rightarrow> pyfloat" where
  "l1_window ar query reference offset =
     py_sum ar
       (map (\<lambda>j. float_abs (float_sub (round_to_double ar) (query ! j) (reference ! (offset + j))))
          [0 ..< length query])"

text \<open>
  The invariant of the two loops once a distance below \<open>+inf\<close> has been seen, on the
  distances \<open>d i\<close> of the first \<open>n\<close> candidates: the best candidate \<open>p\<close> has a
  distance below \<open>+inf\<close>, no candidate has a smaller one, and no earlier candidate has
  an equal one.
\<close>

definition first_least :: "(nat \<Rightarrow> pyfloat) \<Rightarrow> nat \<Rightarrow> nat \<Rightarrow> bool" where
  "first_least d n p \<longleftrightarrow>
     p < n \<and> float_lt (d p) PosInf \<and> (\<forall>i<n. \<not> float_lt (d i) (d p)) \<and> (\<forall>i<p. d i \<noteq> d p)"

text \<open>
  The distance \<open>best_match_position\<close> returns for a reference, by which
  \<open>find_best_video\<close> compares the references.
\<close>

definition match_distance :: "float_arith \<Rightarrow> pyfloat list \<Rightarrow> pyfloat list \<Rightarrow> pyfloat" where
  "match_distance ar query reference =
     (case best_match_position ar query reference of Inr (frame, d) \<Rightarrow> d | Inl e \<Rightarrow> NaN)"

text \<open>
  The arithmetic that does not round, with the sum that adds from the left. It is what
  IEEE arithmetic and \<open>sum\<close> compute on inputs whose differences and partial sums are
  doubles themselves, and on inputs where an infinity or NaN is all there is to add; the
  matcher is evaluated with it on such inputs only.
\<close>

definition exact :: float_arith where
  "exact = \<lparr>round_to_double = Num, sum_floats = foldl (float_add Num) (Num 0)\<rparr>"

section \<open>reference_store.py\<close>

text \<open>
  A character of a file name, with what Unicode says of it as far as the store asks: an
  ASCII character; another decimal digit (category Nd, such as ARABIC-INDIC DIGIT THREE)
  with its code point and its value; another character that \<open>str.isdigit\<close> accepts and
  \<open>int\<close> refuses (such as SUPERSCRIPT TWO) with its code point; any other character
  with its code point.
\<close>

datatype pychar = Ascii char | Decimal nat nat | Digit nat | Other nat

text \<open>
  The file system the store works on: a directory path is absent or holds the list of its
  files, each a name and its text, in the order in which the directory is iterated (names
  are distinct). Sub-directories, permissions and encodings are not modelled.
\<close>

type_synonym file_system = "string \<Rightarrow> (pychar list \<times> string) list option"

subsection \<open>Python's \<open>str\<close>, \<open>int\<close> and \<open>json\<close> on the values the store handles\<close>

text \<open>\<open>str(n)\<close> for an integer: its decimal digits, with a minus sign when negative.\<close>

definition digit_char :: "nat \<Rightarrow> char" where
  "digit_char d = ''0123456789'' ! d"

function str_nat :: "nat \<Rightarrow> string" where
  "str_nat n = (if n < 10 then [digit_char n] else str_nat (n div 10) @ [digit_char (n mod 10)])"
  by pat_completeness auto
termination
  by (relation "measure id") auto

declare str_nat.simps [simp del]

definition str_int :: "int \<Rightarrow> string" where
  "str_int i = (if i < 0 then CHR ''-'' # str_nat (nat (- i)) else str_nat (nat i))"

text \<open>
  The ASCII digits, of which the numbers of a JSON text are made, and their values.
\<close>

definition ascii_digit :: "char \<Rightarrow> bool" where
  "ascii_digit c = (c \<in> set ''0123456789'')"

definition digit_val :: "char \<Rightarrow> nat" where
  "digit_val c = length (takeWhile (\<lambda>d. d \<noteq> c) ''0123456789'')"

definition int_of_digits :: "string \<Rightarrow> nat" where
  "int_of_digits ds = foldl (\<lambda>a c. 10 * a + digit_val c) 0 ds"

text \<open>
  \<open>str.isdigit\<close> on one character: true of every decimal digit and of the other
  characters of numeric type Digit. \<open>int(s)\<close> on a string of such characters: the
  number its decimal digits write, in whatever scripts, and ValueError when the string is
  empty or holds a character that is no decimal digit. (\<open>int\<close> also refuses more than
  4300 digits; a file name is shorter.)
\<close>

fun py_isdigit :: "pychar \<Rightarrow> bool" where
  "py_isdigit (Ascii c) = ascii_digit c"
| "py_isdigit (Decimal cp v) = True"
| "py_isdigit (Digit cp) = True"
| "py_isdigit (Other cp) = False"

fun py_decimal :: "pychar \<Rightarrow> nat option" where
  "py_decimal (Ascii c) = (if ascii_digit c then Some (digit_val c) else None)"
| "py_decimal (Decimal cp v) = Some v"
| "py_decimal (Digit cp) = None"
| "py_decimal (Other cp) = None"

fun digits_value :: "nat \<Rightarrow> pychar list \<Rightarrow> error + nat" where
  "digits_value acc [] = Inr acc"
| "digits_value acc (c # cs) =
     (case py_decimal c of
        None \<Rightarrow> Inl ValueError
      | Some v \<Rightarrow> digits_value (10 * acc + v) cs)"

definition py_int :: "pychar list \<Rightarrow> error + int" where
  "py_int s =
     (if s = [] then Inl ValueError
      else (case digits_value 0 s of Inl e \<Rightarrow> Inl e | Inr n \<Rightarrow> Inr (int n)))"

text \<open>
  \<open>float.__repr__\<close>, which \<open>json.dumps\<close> uses for a float, on the values a fingerprint
  holds: for a non-negative multiple of \<open>1/10\<close> below \<open>10^16\<close> it is the integer part,
  a point and one digit (\<open>0.0\<close>, \<open>0.4\<close>, \<open>12.3\<close>). Other values (more decimals,
  negative, or so large that \<open>repr\<close> switches to exponent notation) are outside what this
  definition models; \<open>fingerprint_value\<close> below is the range it is used on.
\<close>

definition float_repr :: "real \<Rightarrow> string" where
  "float_repr v = (let k = nat \<lfloor>v * 10\<rfloor> in str_nat (k div 10) @ ''.'' @ [digit_char (k mod 10)])"

text \<open>
  \<open>json.dumps(fingerprint, separators=(",", ":"))\<close> on a list of floats: the items
  between brackets, separated by commas, without spaces.
\<close>

fun join_comma :: "string list \<Rightarrow> string" where
  "join_comma [] = []"
| "join_comma [t] = t"
| "join_comma (t # ts) = t @ CHR '','' # join_comma ts"

definition json_dumps :: "real list \<Rightarrow> string" where
  "json_dumps fingerprint = ''['' @ join_comma (map float_repr fingerprint) @ '']''"

text \<open>
  \<open>json.loads\<close> on the texts the store reads: an array of unsigned numbers written as an
  integer or as an integer, a point and digits, separated by commas, without spaces.
  Python's parser accepts more (white space, signs, exponents, NaN, nested values) and
  raises JSONDecodeError on the rest; every text that is not an array of this form is
  \<open>Unmodelled\<close> here. So this definition models \<open>json.loads\<close> only on arrays of this
  form, which are the ones \<open>json_dumps\<close> writes, and says nothing of it elsewhere.
\<close>

fun split_on :: "char \<Rightarrow> string \<Rightarrow> string list" where
  "split_on sep [] = [[]]"
| "split_on sep (c # cs) =
     (if c = sep then [] # split_on sep cs
      else (case split_on sep cs of [] \<Rightarrow> [[c]] | t # ts \<Rightarrow> (c # t) # ts))"

definition json_int :: "string \<Rightarrow> bool" where
  "json_int ds = (ds \<noteq> [] \<and> list_all ascii_digit ds \<and> (ds = ''0'' \<or> hd ds \<noteq> CHR ''0''))"

definition parse_number :: "string \<Rightarrow> error + real" where
  "parse_number tok =
     (let ip = takeWhile (\<lambda>c. c \<noteq> CHR ''.'') tok;
          rest = dropWhile (\<lambda>c. c \<noteq> CHR ''.'') tok
      in if \<not> json_int ip then Inl Unmodelled
         else (case rest of
            [] \<Rightarrow> Inr (of_nat (int_of_digits ip))
          | dot # fp \<Rightarrow>
              if fp \<noteq> [] \<and> list_all ascii_digit fp
              then Inr (of_nat (int_of_digits ip) + of_nat (int_of_digits fp) / 10 ^ length fp)
              else Inl Unmodelled))"

definition json_loads :: "string \<Rightarrow> error + real list" where
  "json_loads text =
     (case text of
        [] \<Rightarrow> Inl Unmodelled
      | c # rest \<Rightarrow>
          if c = CHR ''['' \<and> rest \<noteq> [] \<and> last rest = CHR '']''
          then (let body = butlast rest
                in if body = [] then Inr [] else map_result parse_number (split_on CHR '','' body))
          else Inl Unmodelled)"

subsection \<open>Saving and loading\<close>

text \<open>
  \<open>_path_for\<close>: the path of a record, as the directory and the file name in it.
\<close>

definition path_for :: "int \<Rightarrow> string \<Rightarrow> string \<times> pychar list" where
  "path_for video_index directory =
     (directory, map Ascii (''video'' @ str_int video_index @ ''.json''))"

text \<open>
  \<open>directory.mkdir(parents=True, exist_ok=True)\<close>, \<open>path.write_text\<close> (which replaces
  the text of an existing file and adds a new file otherwise) and \<open>path.read_text\<close>.
  Where a new file comes in the iteration order is up to the file system; here it comes
  last, and what is proved about \<open>load_all_fingerprints\<close> holds for every order.
\<close>

definition mkdir :: "file_system \<Rightarrow> string \<Rightarrow> file_system" where
  "mkdir fs directory = (case fs directory of None \<Rightarrow> fs(directory \<mapsto> []) | Some es \<Rightarrow> fs)"

definition write_text :: "file_system \<Rightarrow> string \<times> pychar list \<Rightarrow> string \<Rightarrow> error + file_system" where
  "write_text fs path text =
     (case fs (fst path) of
        None \<Rightarrow> Inl FileNotFoundError
      | Some es \<Rightarrow> Inr (fs(fst path \<mapsto> AList.update (snd path) text es)))"

definition read_text :: "file_system \<Rightarrow> string \<times> pychar list \<Rightarrow> error + string" where
  "read_text fs path =
     (case fs (fst path) of
        None \<Rightarrow> Inl FileNotFoundError
      | Some es \<Rightarrow> (case map_of es (snd path) of None \<Rightarrow> Inl FileNotFoundError | Some text \<Rightarrow> Inr text))"

definition save_fingerprint :: "real list \<Rightarrow> int \<Rightarrow> string \<Rightarrow> file_system \<Rightarrow> error + file_system" where
  "save_fingerprint fingerprint video_index directory fs =
     write_text (mkdir fs directory) (path_for video_index directory) (json_dumps fingerprint)"

definition load_fingerprint :: "int \<Rightarrow> string \<Rightarrow> file_system \<Rightarrow> error + real list" where
  "load_fingerprint video_index directory fs =
     (case read_text fs (path_for video_index directory) of
        Inl e \<Rightarrow> Inl e
      | Inr text \<Rightarrow> json_loads text)"

text \<open>
  \<open>directory.glob("video*.json")\<close> keeps, in iteration order, the names that start with
  \<open>video\<close> and end with \<open>.json\<close> (as on a file system that tells upper case from
  lower case). \<open>p.stem\<close> is the name without its last suffix: the part before the last
  point, when that point is neither the first nor the last character. \<open>_index\<close> is
  \<open>int("".join(filter(str.isdigit, p.stem)) or -1)\<close>.
\<close>

definition glob_video_json :: "pychar list \<Rightarrow> bool" where
  "glob_video_json name =
     (10 \<le> length name \<and> take 5 name = map Ascii ''video'' \<and>
      drop (length name - 5) name = map Ascii ''.json'')"

definition path_stem :: "pychar list \<Rightarrow> pychar list" where
  "path_stem name =
     (if Ascii CHR ''.'' \<in> set name
      then (let i = length name - Suc (length (takeWhile (\<lambda>c. c \<noteq> Ascii CHR ''.'') (rev name)))
            in if 0 < i \<and> i < length name - 1 then take i name else name)
      else name)"

definition index_of :: "pychar list \<Rightarrow> error + int" where
  "index_of name =
     (let digits = filter py_isdigit (path_stem name)
      in if digits = [] then Inr (- 1) else py_int digits)"

text \<open>
  \<open>sorted(directory.glob("video*.json"), key=_index)\<close> first computes the key of every
  path, in iteration order, so that a name whose digits \<open>int\<close> refuses makes the call
  raise; it then sorts the paths by their keys. The sort is stable, as \<open>sort_key\<close> is:
  names with the same index keep their iteration order.
\<close>

definition load_all_fingerprints :: "string \<Rightarrow> file_system \<Rightarrow> error + real list list" where
  "load_all_fingerprints directory fs =
     (case fs directory of
        None \<Rightarrow> Inr []
      | Some es \<Rightarrow>
          (let matching = filter glob_video_json (map fst es)
           in case map_result index_of matching of
                Inl e \<Rightarrow> Inl e
              | Inr keys \<Rightarrow>
                  (let paths = map snd (sort_key fst (zip keys matching))
                   in map_result
                        (\<lambda>name. case read_text fs (directory, name) of
                                   Inl e \<Rightarrow> Inl e
                                 | Inr text \<Rightarrow> json_loads text)
                        paths)))"

text \<open>
  The values of a fingerprint (section 3 of the specification): non-negative, unchanged by
  rounding to one decimal place, and within the range in which \<open>repr\<close> is positional.
\<close>

definition fingerprint_value :: "real \<Rightarrow> bool" where
  "fingerprint_value v = (0 \<le> v \<and> v < 10 ^ 16 \<and> py_round1 v = v)"

section \<open>Properties of the extractor\<close>

lemma map_result_length:
  "map_result f xs = Inr ys \<Longrightarrow> length ys = length xs"
  by (induction xs arbitrary: ys) (auto split: sum.splits)

lemma map_result_set:
  "map_result f xs = Inr ys \<Longrightarrow> y \<in> set ys \<Longrightarrow> \<exists>x\<in>set xs. f x = Inr y"
  by (induction xs arbitrary: ys) (auto split: sum.splits)

lemma map_result_total:
  "(\<And>x. x \<in> set xs \<Longrightarrow> \<exists>y. f x = Inr y) \<Longrightarrow> \<exists>ys. map_result f xs = Inr ys"
proof (induction xs)
  case Nil
  then show ?case by simp
next
  case (Cons x xs)
  then obtain y where "f x = Inr y" by fastforce
  moreover from Cons obtain ys where "map_result f xs = Inr ys" by fastforce
  ultimately show ?case by simp
qed

lemma ceil_div_step:
  fixes d step :: nat
  assumes "0 < step" "0 < d"
  shows "(d + step - 1) div step = Suc ((d - step + step - 1) div step)"
proof (cases "step \<le> d")
  case True
  have e: "d + step - 1 = (d - 1) + step" using assms by simp
  have "(d - 1 + step) div step = (d - 1) div step + 1"
    by (rule div_add_self2) (use assms in simp)
  moreover have "d - step + step - 1 = d - 1" using True by simp
  ultimately show ?thesis by (simp only: e Suc_eq_plus1)
next
  case False
  then have a: "d - step + step - 1 = step - 1" by simp
  have b: "(step - 1) div step = 0" using assms by simp
  have "step \<le> d + step - 1" "d + step - 1 < 2 * step" using assms False by simp_all
  then have c: "(d + step - 1) div step = 1"
    by (intro div_nat_eqI) simp_all
  show ?thesis by (simp only: a b c)
qed

lemma range_step_length:
  "0 < step \<Longrightarrow> length (range_step start stop step) = (stop - start + step - 1) div step"
proof (induction start stop step rule: range_step.induct)
  case (1 start stop step)
  show ?case
  proof (cases "stop \<le> start")
    case True
    with 1 show ?thesis by (simp add: range_step.simps)
  next
    case False
    with 1 have IH: "length (range_step (start + step) stop step) = (stop - (start + step) + step - 1) div step"
      by simp
    have "length (range_step start stop step) = Suc (length (range_step (start + step) stop step))"
      using False 1(2) by (subst range_step.simps) simp
    also have "\<dots> = Suc (((stop - start) - step + step - 1) div step)"
      by (simp only: IH diff_diff_left)
    also have "\<dots> = (stop - start + step - 1) div step"
      using ceil_div_step[of step "stop - start"] False 1(2) by simp
    finally show ?thesis .
  qed
qed

lemma range_step_bound: "x \<in> set (range_step start stop step) \<Longrightarrow> x < stop"
proof (induction start stop step rule: range_step.induct)
  case (1 start stop step)
  show ?case
  proof (cases "step = 0 \<or> stop \<le> start")
    case True
    with 1(2) show ?thesis by (simp add: range_step.simps)
  next
    case False
    then have "range_step start stop step = start # range_step (start + step) stop step"
      by (subst range_step.simps) simp
    with 1(2) have "x = start \<or> x \<in> set (range_step (start + step) stop step)" by simp
    with 1(1)[OF False] False show ?thesis by auto
  qed
qed

lemma round_half_even_of_int: "round_half_even (of_int k) = k"
  by (simp add: round_half_even_def)

lemma py_round1_idem: "py_round1 (py_round1 x) = py_round1 x"
  by (simp add: py_round1_def round_half_even_of_int)

lemma round_half_even_nonneg: "0 \<le> x \<Longrightarrow> 0 \<le> round_half_even x"
  by (auto simp: round_half_even_def Let_def)

lemma py_round1_nonneg: "0 \<le> x \<Longrightarrow> 0 \<le> py_round1 x"
  by (simp add: py_round1_def round_half_even_nonneg)

lemma fold_max_ge: "(a::real) \<le> fold max xs a"
proof (induction xs arbitrary: a)
  case Nil
  show ?case by simp
next
  case (Cons x xs)
  have "a \<le> max x a" by simp
  also have "\<dots> \<le> fold max xs (max x a)" by (rule Cons.IH)
  finally show ?case by simp
qed

lemma chunk_peak_value:
  "chunk_peak c = Inr v \<Longrightarrow> 0 \<le> v \<and> py_round1 v = v"
proof (cases c)
  case Nil
  assume "chunk_peak c = Inr v"
  with Nil show ?thesis by simp
next
  case (Cons x xs)
  assume "chunk_peak c = Inr v"
  with Cons have v: "v = py_round1 (fold max (map abs xs) \<bar>x\<bar>)" by simp
  have "0 \<le> \<bar>x\<bar>" by simp
  also have "\<dots> \<le> fold max (map abs xs) \<bar>x\<bar>" by (rule fold_max_ge)
  finally show ?thesis by (simp add: v py_round1_nonneg py_round1_idem)
qed

lemma chunks_nonempty:
  "c \<in> set (chunks_of y sr) \<Longrightarrow> 0 < sr \<Longrightarrow> c \<noteq> []"
  by (auto simp: chunks_of_def dest: range_step_bound)

lemma length_chunks_of:
  "0 < sr \<Longrightarrow> length (chunks_of y sr) = (length y + sr - 1) div sr"
  by (simp add: chunks_of_def range_step_length)

lemma chunk_peak_total: "c \<noteq> [] \<Longrightarrow> \<exists>v. chunk_peak c = Inr v"
  by (cases c) simp_all

lemma extract_fingerprint_ok:
  assumes "0 < sr" "y \<noteq> []"
  shows "\<exists>fp. extract_fingerprint y sr = Inr fp \<and> length fp = (length y + sr - 1) div sr - 1"
proof -
  have n: "0 < length y" using assms by simp
  have "sr \<le> length y + sr - 1" using n by linarith
  then have "0 < (length y + sr - 1) div sr"
    using assms by (simp add: div_greater_zero_iff)
  then have ne: "chunks_of y sr \<noteq> []"
    using length_chunks_of[OF assms(1), of y] by auto
  have "\<exists>fp. map_result chunk_peak (butlast (chunks_of y sr)) = Inr fp"
  proof (rule map_result_total)
    fix c assume "c \<in> set (butlast (chunks_of y sr))"
    then have "c \<in> set (chunks_of y sr)" by (rule in_set_butlastD)
    then have "c \<noteq> []" using assms(1) by (rule chunks_nonempty)
    then show "\<exists>v. chunk_peak c = Inr v" by (rule chunk_peak_total)
  qed
  then obtain fp where fp: "map_result chunk_peak (butlast (chunks_of y sr)) = Inr fp" ..
  have "length fp = length (chunks_of y sr) - 1"
    using map_result_length[OF fp] by simp
  with fp ne assms show ?thesis
    by (simp add: extract_fingerprint_def Let_def length_chunks_of)
qed

lemma range_step_empty: "range_step start start step = []"
  by (subst range_step.simps) simp

lemma extract_fingerprint_no_samples: "0 < sr \<Longrightarrow> extract_fingerprint [] sr = Inl IndexError"
  by (simp add: extract_fingerprint_def chunks_of_def range_step_empty)

lemma extract_fingerprint_short:
  assumes "y \<noteq> []" "length y < sr"
  shows "extract_fingerprint y sr = Inr []"
proof -
  have sr: "0 < sr" using assms by simp
  obtain fp where fp: "extract_fingerprint y sr = Inr fp" "length fp = (length y + sr - 1) div sr - 1"
    using extract_fingerprint_ok[OF sr assms(1)] by blast
  have "length y + sr - 1 < 2 * sr" using assms by simp
  then have "(length y + sr - 1) div sr < 2" using sr
    by (simp add: less_mult_imp_div_less)
  with fp show ?thesis by simp
qed

lemma count_eq:
  fixes n sr :: nat
  assumes "0 < sr" "0 < n"
  shows "(n + sr - 1) div sr - 1 = (n - 1) div sr"
proof -
  have "n + sr - 1 = (n - 1) + sr" using assms by simp
  then have "(n + sr - 1) div sr = (n - 1) div sr + 1"
    using assms by (simp only: div_add_self2)
  then show ?thesis by simp
qed

lemma count_dvd:
  fixes n sr :: nat
  assumes "0 < sr" "0 < n" "sr dvd n"
  shows "(n - 1) div sr = n div sr - 1"
proof -
  from assms(3) obtain k where k: "n = sr * k" ..
  with assms have kpos: "0 < k" by (cases k) simp_all
  then have "(k - 1) * sr + sr = k * sr" by (cases k) simp_all
  then have e: "n - 1 = (sr - 1) + (k - 1) * sr" using k assms(1) by (simp add: mult.commute)
  have "((sr - 1) + (k - 1) * sr) div sr = (k - 1) + (sr - 1) div sr"
    by (rule div_mult_self1) (use assms(1) in simp)
  then have "(n - 1) div sr = (k - 1) + (sr - 1) div sr"
    by (simp only: e)
  moreover have "(sr - 1) div sr = 0" using assms(1) by simp
  moreover have "n div sr = k" using k assms(1) by simp
  ultimately show ?thesis by simp
qed

lemma count_not_dvd:
  fixes n sr :: nat
  assumes "0 < sr" "\<not> sr dvd n"
  shows "(n - 1) div sr = n div sr"
proof -
  have m: "0 < n mod sr" using assms(2) by (simp add: dvd_eq_mod_eq_0)
  have "n = n mod sr + (n div sr) * sr" by simp
  then have "n - 1 = (n mod sr - 1) + (n div sr) * sr" using m by linarith
  then have "(n - 1) div sr = n div sr + (n mod sr - 1) div sr"
    using div_mult_self3[of sr "n mod sr - 1" "n div sr"] assms(1) by simp
  moreover have "n mod sr - 1 < sr" using assms(1) by (simp add: less_imp_diff_less)
  ultimately show ?thesis by simp
qed

text \<open>
  C1. The claim: for fewer than \<open>sample_rate\<close> samples, zero samples included, the
  extractor returns the empty fingerprint and does not fail. With zero samples
  \<open>range(0, 0, sr)\<close> is empty, no chunk is built, and \<open>chunks.pop()\<close> raises
  IndexError: at the sample rate 22050 of the decoder's default the extractor fails.
  (With at least one sample and fewer than \<open>sr\<close> the single partial chunk is popped
  and the result is the empty fingerprint: \<open>extract_fingerprint_short\<close>.)
\<close>

theorem extract_fingerprint_zero_samples_raises:
  "extract_fingerprint [] 22050 = Inl IndexError"
  by (simp add: extract_fingerprint_def chunks_of_def range_step_empty)

text \<open>
  C2, as the code has it. For \<open>n \<ge> sr > 0\<close> samples the extractor returns a
  fingerprint of \<open>(n - 1) div sr\<close> elements, one less than the number of chunks: the
  last chunk is removed whether it is partial or full. That is \<open>n div sr\<close> when
  \<open>sr\<close> does not divide \<open>n\<close>, and \<open>n div sr - 1\<close> when it does.
\<close>

theorem extract_fingerprint_length:
  assumes "0 < sr" "sr \<le> length y"
  shows "\<exists>fp. extract_fingerprint y sr = Inr fp \<and>
           length fp = (length y - 1) div sr \<and>
           (\<not> sr dvd length y \<longrightarrow> length fp = length y div sr) \<and>
           (sr dvd length y \<longrightarrow> length fp = length y div sr - 1)"
proof -
  have n: "0 < length y" using assms by linarith
  then have "y \<noteq> []" by simp
  with assms(1) obtain fp where fp: "extract_fingerprint y sr = Inr fp"
    "length fp = (length y + sr - 1) div sr - 1"
    using extract_fingerprint_ok by blast
  have len: "length fp = (length y - 1) div sr"
    using fp(2) count_eq[OF assms(1) n] by simp
  have "\<not> sr dvd length y \<Longrightarrow> length fp = length y div sr"
    using len count_not_dvd[OF assms(1)] by simp
  moreover have "sr dvd length y \<Longrightarrow> length fp = length y div sr - 1"
    using len count_dvd[OF assms(1) n] by simp
  ultimately show ?thesis using fp(1) len by blast
qed

theorem extract_fingerprint_length_witness:
  "(0::nat) < 2 \<and> 2 \<le> length [1 / 2, - 3 / 4, 26 / 100, 1 / 4, 1 :: real] \<and>
   extract_fingerprint [1 / 2, - 3 / 4, 26 / 100, 1 / 4, 1] 2 = Inr [8 / 10, 3 / 10] \<and>
   length [8 / 10, 3 / 10 :: real] = length [1 / 2, - 3 / 4, 26 / 100, 1 / 4, 1 :: real] div 2 \<and>
   2 \<le> length [1 / 2, - 3 / 4, 26 / 100, 1 / 4 :: real] \<and>
   extract_fingerprint [1 / 2, - 3 / 4, 26 / 100, 1 / 4] 2 = Inr [8 / 10] \<and>
   length [8 / 10 :: real] = length [1 / 2, - 3 / 4, 26 / 100, 1 / 4 :: real] div 2 - 1"
  using extract_fingerprint_length [of 2 "[1 / 2, - 3 / 4, 26 / 100, 1 / 4, 1]"]
    extract_fingerprint_length [of 2 "[1 / 2, - 3 / 4, 26 / 100, 1 / 4]"]
  by (simp add: extract_fingerprint_def chunks_of_def range_step.simps py_round1_def
      round_half_even_def)

text \<open>
  C2, as the claim states it, fails where \<open>sr\<close> divides \<open>n\<close>: two samples at
  the sample rate 2 are one full second, \<open>floor(n / sr) = 1\<close>, and the fingerprint is
  empty.
\<close>

theorem extract_fingerprint_full_second_dropped:
  "(0::nat) < 2 \<and> 2 \<le> length [1 / 2, 1 / 4 :: real] \<and>
   extract_fingerprint [1 / 2, 1 / 4] 2 = Inr [] \<and>
   length ([] :: real list) \<noteq> length [1 / 2, 1 / 4 :: real] div 2"
  by (simp add: extract_fingerprint_def chunks_of_def range_step.simps)

text \<open>
  C9. Every value of a fingerprint the extractor returns is non-negative and is left
  unchanged by rounding to one decimal place.
\<close>

theorem extract_fingerprint_values:
  assumes "extract_fingerprint y sr = Inr fp" "v \<in> set fp"
  shows "0 \<le> v \<and> py_round1 v = v"
proof -
  from assms(1) have "map_result chunk_peak (butlast (chunks_of y sr)) = Inr fp"
    by (simp add: extract_fingerprint_def Let_def split: if_splits)
  from map_result_set [OF this assms(2)] obtain c where "chunk_peak c = Inr v"
    by blast
  then show ?thesis by (rule chunk_peak_value)
qed

theorem extract_fingerprint_values_witness:
  "extract_fingerprint [1 / 2, - 3 / 4, 26 / 100, 1 / 4, 1] 2 = Inr [8 / 10, 3 / 10] \<and>
   (3 / 10 :: real) \<in> set [8 / 10, 3 / 10] \<and>
   (0::real) \<le> 3 / 10 \<and> py_round1 (3 / 10) = 3 / 10"
proof -
  have e: "extract_fingerprint [1 / 2, - 3 / 4, 26 / 100, 1 / 4, 1] 2 = Inr [8 / 10, 3 / 10]"
    by (simp add: extract_fingerprint_def chunks_of_def range_step.simps py_round1_def
        round_half_even_def)
  have m: "(3 / 10 :: real) \<in> set [8 / 10, 3 / 10]" by simp
  from extract_fingerprint_values [OF e m] e m show ?thesis by simp
qed

section \<open>Properties of the matcher\<close>

lemma float_lt_trans: "float_lt a b \<Longrightarrow> float_lt b c \<Longrightarrow> float_lt a c"
  by (cases a; cases b; cases c) auto

lemma float_lt_irrefl: "\<not> float_lt a a"
  by (cases a) auto

lemma float_lt_not_nan: "float_lt a b \<Longrightarrow> a \<noteq> NaN \<and> b \<noteq> NaN"
  by (cases a; cases b) auto

lemma float_lt_total: "a \<noteq> NaN \<Longrightarrow> b \<noteq> NaN \<Longrightarrow> a \<noteq> b \<Longrightarrow> float_lt a b \<or> float_lt b a"
  by (cases a; cases b) auto

lemma float_lt_PosInf: "float_lt a PosInf \<longleftrightarrow> a \<noteq> NaN \<and> a \<noteq> PosInf"
  by (cases a) auto

lemma first_least_start:
  assumes "\<forall>i<n. \<not> float_lt (d i) PosInf" "float_lt (d n) PosInf"
  shows "first_least d (Suc n) n"
proof -
  have "\<not> float_lt (d i) (d n)" if "i < Suc n" for i
  proof (cases "i = n")
    case True
    then show ?thesis by (simp add: float_lt_irrefl)
  next
    case False
    with that have "i < n" by simp
    with assms(1) have "\<not> float_lt (d i) PosInf" by simp
    with assms(2) show ?thesis using float_lt_trans by blast
  qed
  moreover have "d i \<noteq> d n" if "i < n" for i
    using assms that by auto
  ultimately show ?thesis using assms(2) by (simp add: first_least_def)
qed

lemma first_least_new:
  assumes "first_least d n p" "float_lt (d n) (d p)"
  shows "first_least d (Suc n) n"
proof -
  from assms(1) have p: "float_lt (d p) PosInf" "\<forall>i<n. \<not> float_lt (d i) (d p)"
    by (simp_all add: first_least_def)
  have a: "\<not> float_lt (d i) (d n)" if "i < Suc n" for i
  proof (cases "i = n")
    case True
    then show ?thesis by (simp add: float_lt_irrefl)
  next
    case False
    with that have "i < n" by simp
    with p(2) have "\<not> float_lt (d i) (d p)" by simp
    with assms(2) show ?thesis using float_lt_trans by blast
  qed
  have b: "d i \<noteq> d n" if "i < n" for i
    using p(2) assms(2) that by auto
  have "float_lt (d n) PosInf" using assms(2) p(1) by (rule float_lt_trans)
  with a b show ?thesis by (simp add: first_least_def)
qed

lemma first_least_keep:
  assumes "first_least d n p" "\<not> float_lt (d n) (d p)"
  shows "first_least d (Suc n) p"
  using assms by (auto simp: first_least_def less_Suc_eq)

lemma first_least_cong:
  assumes "\<And>i. i < n \<Longrightarrow> d i = d' i"
  shows "first_least d n p = first_least d' n p"
proof (cases "p < n")
  case True
  then have "\<And>i. i < p \<Longrightarrow> d i = d' i" "d p = d' p" using assms by simp_all
  with assms show ?thesis by (simp add: first_least_def)
next
  case False
  then show ?thesis by (simp add: first_least_def)
qed

lemma l1_terms_ok:
  "k + length q \<le> length r \<Longrightarrow>
   l1_terms ar q r k =
     Inr (map (\<lambda>j. float_abs (float_sub (round_to_double ar) (q ! j) (r ! (k + j))))
            [0 ..< length q])"
proof (induction q arbitrary: k)
  case Nil
  show ?case by simp
next
  case (Cons a qs)
  then have k: "k < length r" and rest: "Suc k + length qs \<le> length r" by simp_all
  let ?t = "\<lambda>q k j. float_abs (float_sub (round_to_double ar) (q ! j) (r ! (k + j)))"
  have idx: "[0 ..< length (a # qs)] = 0 # map Suc [0 ..< length qs]"
    by (simp add: upt_conv_Cons map_Suc_upt del: upt_Suc)
  have "map (?t (a # qs) k) [0 ..< length (a # qs)] =
      float_abs (float_sub (round_to_double ar) a (r ! k)) # map (?t qs (Suc k)) [0 ..< length qs]"
    unfolding idx by simp
  moreover have "l1_terms ar (a # qs) r k =
      Inr (float_abs (float_sub (round_to_double ar) a (r ! k)) # map (?t qs (Suc k)) [0 ..< length qs])"
    using k Cons.IH [OF rest] by simp
  ultimately show ?case by (simp only:)
qed

lemma l1_distance_ok:
  "offset + length q \<le> length r \<Longrightarrow>
   l1_distance ar q r offset = Inr (l1_window ar q r offset)"
  by (simp add: l1_distance_def l1_window_def l1_terms_ok)

lemma l1_terms_raises:
  "length r < k + length q \<Longrightarrow> q \<noteq> [] \<Longrightarrow> l1_terms ar q r k = Inl IndexError"
proof (induction q arbitrary: k)
  case Nil
  then show ?case by simp
next
  case (Cons a qs)
  show ?case
  proof (cases "k < length r")
    case True
    with Cons.prems have "length r < Suc k + length qs" "qs \<noteq> []" by auto
    then have "l1_terms ar qs r (Suc k) = Inl IndexError"
      by (rule Cons.IH)
    with True show ?thesis by simp
  next
    case False
    then show ?thesis by simp
  qed
qed

lemma l1_distance_raises:
  "length r < length q \<Longrightarrow> l1_distance ar q r offset = Inl IndexError"
proof -
  assume "length r < length q"
  then have "l1_terms ar q r offset = Inl IndexError"
    by (intro l1_terms_raises) auto
  then show ?thesis by (simp add: l1_distance_def)
qed

lemma scan_offsets_append:
  "scan_offsets ar q r (xs @ ys) best =
     (case scan_offsets ar q r xs best of Inl e \<Rightarrow> Inl e | Inr b \<Rightarrow> scan_offsets ar q r ys b)"
proof (induction xs arbitrary: best)
  case Nil
  show ?case by simp
next
  case (Cons x xs)
  obtain bo bd where best: "best = (bo, bd)" by (cases best)
  show ?case unfolding best
    by (simp add: Cons.IH split: sum.splits)
qed

lemma scan_offsets_prefix:
  assumes "n + length q \<le> Suc (length r)"
  shows "(\<forall>i<n. \<not> float_lt (l1_window ar q r i) PosInf) \<and>
           scan_offsets ar q r [0 ..< n] (- 1, PosInf) = Inr (- 1, PosInf) \<or>
         (\<exists>p. first_least (l1_window ar q r) n p \<and>
           scan_offsets ar q r [0 ..< n] (- 1, PosInf) = Inr (int p, l1_window ar q r p))"
  using assms
proof (induction n)
  case 0
  then show ?case by simp
next
  case (Suc n)
  let ?d = "l1_window ar q r"
  have dn: "l1_distance ar q r n = Inr (?d n)"
    using Suc.prems by (intro l1_distance_ok) simp
  from Suc have IH: "(\<forall>i<n. \<not> float_lt (?d i) PosInf) \<and>
           scan_offsets ar q r [0 ..< n] (- 1, PosInf) = Inr (- 1, PosInf) \<or>
         (\<exists>p. first_least ?d n p \<and>
           scan_offsets ar q r [0 ..< n] (- 1, PosInf) = Inr (int p, ?d p))"
    by simp
  then show ?case
  proof
    assume none: "(\<forall>i<n. \<not> float_lt (?d i) PosInf) \<and>
           scan_offsets ar q r [0 ..< n] (- 1, PosInf) = Inr (- 1, PosInf)"
    show ?thesis
    proof (cases "float_lt (?d n) PosInf")
      case True
      with none have "first_least ?d (Suc n) n" by (intro first_least_start) simp_all
      moreover have "scan_offsets ar q r [0 ..< Suc n] (- 1, PosInf) = Inr (int n, ?d n)"
        using none True by (simp add: scan_offsets_append dn)
      ultimately show ?thesis by blast
    next
      case False
      with none have "\<forall>i<Suc n. \<not> float_lt (?d i) PosInf" by (simp add: less_Suc_eq)
      moreover have "scan_offsets ar q r [0 ..< Suc n] (- 1, PosInf) = Inr (- 1, PosInf)"
        using none False by (simp add: scan_offsets_append dn)
      ultimately show ?thesis by blast
    qed
  next
    assume "\<exists>p. first_least ?d n p \<and>
           scan_offsets ar q r [0 ..< n] (- 1, PosInf) = Inr (int p, ?d p)"
    then obtain p where p: "first_least ?d n p"
      "scan_offsets ar q r [0 ..< n] (- 1, PosInf) = Inr (int p, ?d p)" by blast
    show ?thesis
    proof (cases "float_lt (?d n) (?d p)")
      case True
      with p(1) have "first_least ?d (Suc n) n" by (rule first_least_new)
      moreover have "scan_offsets ar q r [0 ..< Suc n] (- 1, PosInf) = Inr (int n, ?d n)"
        using p(2) True by (simp add: scan_offsets_append dn)
      ultimately show ?thesis by blast
    next
      case False
      with p(1) have "first_least ?d (Suc n) p" by (rule first_least_keep)
      moreover have "scan_offsets ar q r [0 ..< Suc n] (- 1, PosInf) = Inr (int p, ?d p)"
        using p(2) False by (simp add: scan_offsets_append dn)
      ultimately show ?thesis by blast
    qed
  qed
qed

lemma best_match_position_short:
  "length r < length q \<Longrightarrow> best_match_position ar q r = Inr (- 1, PosInf)"
  by (simp add: best_match_position_def)

lemma best_match_position_scan:
  "length q \<le> length r \<Longrightarrow>
   best_match_position ar q r =
     scan_offsets ar q r [0 ..< Suc (length r - length q)] (- 1, PosInf)"
proof -
  assume le: "length q \<le> length r"
  then have "nat (int (length r) - int (length q) + 1) = Suc (length r - length q)"
    by linarith
  with le show ?thesis by (simp add: best_match_position_def Let_def)
qed

lemma best_match_position_window:
  assumes "length q \<le> length r"
  shows "(\<forall>i \<le> length r - length q. \<not> float_lt (l1_window ar q r i) PosInf) \<and>
           best_match_position ar q r = Inr (- 1, PosInf) \<or>
         (\<exists>p. first_least (l1_window ar q r) (Suc (length r - length q)) p \<and>
           best_match_position ar q r = Inr (int p, l1_window ar q r p))"
proof -
  have "Suc (length r - length q) + length q \<le> Suc (length r)" using assms by simp
  from scan_offsets_prefix [OF this, of ar] show ?thesis
    by (simp only: best_match_position_scan [OF assms] less_Suc_eq_le)
qed

lemma best_match_position_result:
  "\<exists>f d. best_match_position ar q r = Inr (f, d) \<and>
     (f = - 1 \<and> d = PosInf \<or> 0 \<le> f \<and> float_lt d PosInf)"
proof (cases "length r < length q")
  case True
  then show ?thesis by (simp add: best_match_position_short)
next
  case False
  then have "length q \<le> length r" by simp
  from best_match_position_window [OF this, of ar] show ?thesis
    by (auto simp: first_least_def)
qed

lemma match_distance_eq:
  "best_match_position ar q r = Inr (f, d) \<Longrightarrow> match_distance ar q r = d"
  by (simp add: match_distance_def)

lemma best_match_position_distance:
  "\<exists>f. best_match_position ar q r = Inr (f, match_distance ar q r)"
  using best_match_position_result [of ar q r] by (auto simp: match_distance_def)

lemma match_distance_not_nan: "match_distance ar q r \<noteq> NaN"
  using best_match_position_result [of ar q r]
  by (auto simp: match_distance_def dest: float_lt_not_nan)

lemma scan_videos_append:
  "scan_videos ar q (xs @ ys) best =
     (case scan_videos ar q xs best of Inl e \<Rightarrow> Inl e | Inr b \<Rightarrow> scan_videos ar q ys b)"
proof (induction xs arbitrary: best)
  case Nil
  show ?case by simp
next
  case (Cons x xs)
  obtain i ref where x: "x = (i, ref)" by (cases x)
  obtain bv bf bd where best: "best = (bv, bf, bd)" by (cases best)
  show ?case unfolding best x
    by (simp add: Cons.IH split: sum.splits prod.splits)
qed

lemma scan_videos_all_short:
  "(\<And>r. r \<in> set refs \<Longrightarrow> length r < length q) \<Longrightarrow>
   scan_videos ar q (enumerate k refs) (- 1, - 1, PosInf) = Inr (- 1, - 1, PosInf)"
  by (induction refs arbitrary: k) (simp_all add: best_match_position_short)

lemma scan_videos_prefix:
  "(\<forall>i<length refs. \<not> float_lt (match_distance ar q (refs ! i)) PosInf) \<and>
     scan_videos ar q (enumerate 0 refs) (- 1, - 1, PosInf) = Inr (- 1, - 1, PosInf) \<or>
   (\<exists>v f. first_least (\<lambda>i. match_distance ar q (refs ! i)) (length refs) v \<and>
      best_match_position ar q (refs ! v) = Inr (f, match_distance ar q (refs ! v)) \<and>
      scan_videos ar q (enumerate 0 refs) (- 1, - 1, PosInf) =
        Inr (int v, f, match_distance ar q (refs ! v)))"
proof (induction refs rule: rev_induct)
  case Nil
  show ?case by simp
next
  case (snoc x refs)
  let ?n = "length refs"
  let ?d = "\<lambda>i. match_distance ar q (refs ! i)"
  let ?d' = "\<lambda>i. match_distance ar q ((refs @ [x]) ! i)"
  have en: "enumerate 0 (refs @ [x]) = enumerate 0 refs @ [(?n, x)]"
    by (simp add: enumerate_append_eq)
  have old: "?d' i = ?d i" if "i < ?n" for i using that by (simp add: nth_append)
  have new: "?d' ?n = match_distance ar q x" by simp
  obtain f where bx: "best_match_position ar q x = Inr (f, ?d' ?n)"
    using best_match_position_distance [of ar q x] new by auto
  have cong: "first_least ?d ?n p = first_least ?d' ?n p" for p
    by (rule first_least_cong) (simp add: old)
  from snoc show ?case
  proof
    assume none: "(\<forall>i<?n. \<not> float_lt (?d i) PosInf) \<and>
      scan_videos ar q (enumerate 0 refs) (- 1, - 1, PosInf) = Inr (- 1, - 1, PosInf)"
    then have none': "\<forall>i<?n. \<not> float_lt (?d' i) PosInf" by (simp add: old)
    show ?thesis
    proof (cases "float_lt (?d' ?n) PosInf")
      case True
      with none' have "first_least ?d' (Suc ?n) ?n" by (rule first_least_start)
      moreover have "scan_videos ar q (enumerate 0 (refs @ [x])) (- 1, - 1, PosInf) =
          Inr (int ?n, f, ?d' ?n)"
        using none True by (simp add: en scan_videos_append bx)
      moreover have "best_match_position ar q ((refs @ [x]) ! ?n) = Inr (f, ?d' ?n)"
        using bx by simp
      ultimately show ?thesis by (intro disjI2 exI [of _ ?n] exI [of _ f]) simp
    next
      case False
      with none' have "\<forall>i<Suc ?n. \<not> float_lt (?d' i) PosInf" by (simp add: less_Suc_eq)
      moreover have "scan_videos ar q (enumerate 0 (refs @ [x])) (- 1, - 1, PosInf) =
          Inr (- 1, - 1, PosInf)"
        using none False by (simp add: en scan_videos_append bx)
      ultimately show ?thesis by simp
    qed
  next
    assume "\<exists>v f. first_least ?d ?n v \<and>
      best_match_position ar q (refs ! v) = Inr (f, ?d v) \<and>
      scan_videos ar q (enumerate 0 refs) (- 1, - 1, PosInf) = Inr (int v, f, ?d v)"
    then obtain v g where v: "first_least ?d ?n v"
      "best_match_position ar q (refs ! v) = Inr (g, ?d v)"
      "scan_videos ar q (enumerate 0 refs) (- 1, - 1, PosInf) = Inr (int v, g, ?d v)"
      by blast
    from v(1) have vn: "v < ?n" by (simp add: first_least_def)
    then have dv: "?d' v = ?d v" by (rule old)
    from v(1) have v': "first_least ?d' ?n v" by (simp only: cong)
    have bv: "best_match_position ar q ((refs @ [x]) ! v) = Inr (g, ?d' v)"
      using v(2) vn by (simp add: nth_append)
    show ?thesis
    proof (cases "float_lt (?d' ?n) (?d' v)")
      case True
      with v' have "first_least ?d' (Suc ?n) ?n" by (rule first_least_new)
      moreover have "scan_videos ar q (enumerate 0 (refs @ [x])) (- 1, - 1, PosInf) =
          Inr (int ?n, f, ?d' ?n)"
        using v(3) True by (simp add: en scan_videos_append bx dv)
      moreover have "best_match_position ar q ((refs @ [x]) ! ?n) = Inr (f, ?d' ?n)"
        using bx by simp
      ultimately show ?thesis by (intro disjI2 exI [of _ ?n] exI [of _ f]) simp
    next
      case False
      with v' have "first_least ?d' (Suc ?n) v" by (rule first_least_keep)
      moreover have "scan_videos ar q (enumerate 0 (refs @ [x])) (- 1, - 1, PosInf) =
          Inr (int v, g, ?d' v)"
        using v(3) False by (simp add: en scan_videos_append bx dv)
      ultimately show ?thesis using bv by (intro disjI2 exI [of _ v] exI [of _ g]) simp
    qed
  qed
qed

lemma l1_distance_empty: "l1_distance ar [] r offset = Inr (Num 0)"
  by (simp add: l1_distance_def py_sum_def)

lemma scan_offsets_zero:
  "scan_offsets ar [] r offs (bo, Num 0) = Inr (bo, Num 0)"
  by (induction offs) (simp_all add: l1_distance_empty)

lemma best_match_position_empty_query: "best_match_position ar [] r = Inr (0, Num 0)"
  by (simp add: best_match_position_scan upt_conv_Cons l1_distance_empty scan_offsets_zero
      del: upt_Suc)

lemma scan_videos_zero:
  "scan_videos ar [] es (bv, bf, Num 0) = Inr (bv, bf, Num 0)"
proof (induction es)
  case Nil
  show ?case by simp
next
  case (Cons e es)
  obtain i ref where e: "e = (i, ref)" by (cases e)
  show ?case unfolding e by (simp add: best_match_position_empty_query Cons.IH)
qed

lemma best_match_position_finite:
  assumes "length q \<le> length r" "i \<le> length r - length q" "l1_window ar q r i = Num y"
  shows "float_lt (match_distance ar q r) PosInf"
proof -
  from assms(2,3) have "\<not> (\<forall>i \<le> length r - length q. \<not> float_lt (l1_window ar q r i) PosInf)"
    by auto
  with best_match_position_window [OF assms(1), of ar] obtain p where
    "first_least (l1_window ar q r) (Suc (length r - length q)) p"
    "best_match_position ar q r = Inr (int p, l1_window ar q r p)"
    by blast
  then show ?thesis by (simp add: match_distance_def first_least_def)
qed


text \<open>The equations that evaluate the matcher on concrete values.\<close>

lemmas eval_match =
  best_match_position_def find_best_video_def l1_distance_def l1_window_def py_sum_def
  exact_def upt_rec



text \<open>
  C4, as the code has it. When \<open>best_match_position\<close> returns a distance below
  \<open>+inf\<close> for at least one reference (as it does for a reference at least as long as
  the query with a window of finite distance, \<open>best_match_position_finite\<close>),
  \<open>find_best_video\<close> returns the index \<open>v\<close> of a reference together with the result
  of \<open>best_match_position\<close> on it; no reference has a smaller distance, and every
  reference before \<open>v\<close> has a strictly larger one (ties go to the smallest index).
\<close>

theorem find_best_video_argmin:
  assumes "\<exists>r\<in>set references. \<exists>f d.
             best_match_position ar query r = Inr (f, d) \<and> float_lt d PosInf"
  shows "\<exists>v f d. find_best_video ar query references = Inr (int v, f, d) \<and>
           v < length references \<and>
           best_match_position ar query (references ! v) = Inr (f, d) \<and>
           (\<forall>i<length references. \<exists>f' d'.
              best_match_position ar query (references ! i) = Inr (f', d') \<and>
              \<not> float_lt d' d) \<and>
           (\<forall>i<v. \<exists>f' d'.
              best_match_position ar query (references ! i) = Inr (f', d') \<and>
              float_lt d d')"
proof -
  let ?d = "\<lambda>i. match_distance ar query (references ! i)"
  from assms obtain r f d where r: "r \<in> set references"
    "best_match_position ar query r = Inr (f, d)" "float_lt d PosInf" by blast
  from r(1) obtain k where k: "k < length references" "references ! k = r"
    by (auto simp: in_set_conv_nth)
  from r(2,3) k(2) have "float_lt (?d k) PosInf" by (simp add: match_distance_eq)
  with k(1) have "\<not> (\<forall>i<length references. \<not> float_lt (?d i) PosInf)" by blast
  with scan_videos_prefix [of references ar query] obtain v g where
    fl: "first_least ?d (length references) v"
    and bv: "best_match_position ar query (references ! v) = Inr (g, ?d v)"
    and res: "find_best_video ar query references = Inr (int v, g, ?d v)"
    unfolding find_best_video_def by blast
  from fl have vn: "v < length references" and dv: "float_lt (?d v) PosInf"
    and least: "\<forall>i<length references. \<not> float_lt (?d i) (?d v)"
    and first: "\<forall>i<v. ?d i \<noteq> ?d v"
    by (simp_all add: first_least_def)
  have a: "\<exists>f' d'. best_match_position ar query (references ! i) = Inr (f', d') \<and>
      \<not> float_lt d' (?d v)" if "i < length references" for i
    using best_match_position_distance [of ar query "references ! i"] least that by blast
  have b: "\<exists>f' d'. best_match_position ar query (references ! i) = Inr (f', d') \<and>
      float_lt (?d v) d'" if "i < v" for i
  proof -
    from that vn have "i < length references" by simp
    with least have "\<not> float_lt (?d i) (?d v)" by simp
    moreover from first that have "?d i \<noteq> ?d v" by simp
    moreover have "?d i \<noteq> NaN" "?d v \<noteq> NaN" by (rule match_distance_not_nan)+
    ultimately have "float_lt (?d v) (?d i)" using float_lt_total by blast
    with best_match_position_distance [of ar query "references ! i"] show ?thesis by blast
  qed
  from res vn bv a b show ?thesis by blast
qed

theorem find_best_video_argmin_witness:
  "best_match_position exact [Num (1 / 2), Num (1 / 2)] [Num (1 / 2), Num (1 / 2)] =
     Inr (0, Num 0) \<and>
   float_lt (Num 0) PosInf \<and>
   find_best_video exact [Num (1 / 2), Num (1 / 2)]
     [[Num (1 / 2), Num (1 / 2)], [Num (1 / 2), Num (1 / 2)]] = Inr (0, 0, Num 0)"
proof -
  let ?q = "[Num (1 / 2), Num (1 / 2)]"
  have b: "best_match_position exact ?q ?q = Inr (0, Num 0)"
    by (simp add: eval_match)
  then have h: "\<exists>r\<in>set [?q, ?q]. \<exists>f d.
      best_match_position exact ?q r = Inr (f, d) \<and> float_lt d PosInf"
    by simp
  have "find_best_video exact ?q [?q, ?q] = Inr (0, 0, Num 0)"
    using find_best_video_argmin [OF h] by (simp add: eval_match)
  with b show ?thesis by simp
qed

text \<open>
  C4, as the claim states it for every query and reference list, fails where no reference
  gives a distance below \<open>+inf\<close>: against the single empty reference the query
  \<open>[0.5]\<close> has the distance \<open>+inf\<close>, index 0 is the only index and so holds the least
  distance, and the result is the sentinel index \<open>-1\<close>, since \<open>inf < inf\<close> is no strict
  improvement. No value is subtracted or added on this input.
\<close>

theorem find_best_video_no_index:
  "find_best_video exact [Num (1 / 2)] [[]] = Inr (- 1, - 1, PosInf) \<and>
   (0::nat) < length [[] :: pyfloat list] \<and>
   best_match_position exact [Num (1 / 2)] ([[]] ! 0) = Inr (- 1, PosInf)"
  by (simp add: find_best_video_def best_match_position_def)

text \<open>
  C5, as the code has it. \<open>best_match_position\<close> returns the sentinel \<open>(-1, +inf)\<close>
  whenever the query is longer than the reference, and then without computing a window
  distance: for such a query \<open>_l1_distance\<close> raises IndexError at every offset, and the
  result is a normal return. When the query is not longer, the sentinel is returned exactly
  when no window distance is below \<open>+inf\<close>, each being NaN or \<open>+inf\<close>.
\<close>

theorem best_match_position_sentinel:
  "(length reference < length query \<longrightarrow>
      best_match_position ar query reference = Inr (- 1, PosInf) \<and>
      (\<forall>offset. l1_distance ar query reference offset = Inl IndexError)) \<and>
   (length query \<le> length reference \<longrightarrow>
      (best_match_position ar query reference = Inr (- 1, PosInf)) =
      (\<forall>i \<le> length reference - length query.
         \<not> float_lt (l1_window ar query reference i) PosInf))"
proof (intro conjI impI)
  assume "length reference < length query"
  then show "best_match_position ar query reference = Inr (- 1, PosInf)"
    by (rule best_match_position_short)
next
  assume "length reference < length query"
  then show "\<forall>offset. l1_distance ar query reference offset = Inl IndexError"
    by (simp add: l1_distance_raises)
next
  assume le: "length query \<le> length reference"
  let ?d = "l1_window ar query reference"
  let ?m = "length reference - length query"
  from best_match_position_window [OF le, of ar]
  show "(best_match_position ar query reference = Inr (- 1, PosInf)) =
      (\<forall>i \<le> ?m. \<not> float_lt (?d i) PosInf)"
  proof
    assume "(\<forall>i \<le> ?m. \<not> float_lt (?d i) PosInf) \<and>
      best_match_position ar query reference = Inr (- 1, PosInf)"
    then show ?thesis by simp
  next
    assume "\<exists>p. first_least ?d (Suc ?m) p \<and>
      best_match_position ar query reference = Inr (int p, ?d p)"
    then obtain p where p: "first_least ?d (Suc ?m) p"
      "best_match_position ar query reference = Inr (int p, ?d p)" by blast
    from p(1) have "p \<le> ?m" "float_lt (?d p) PosInf" by (simp_all add: first_least_def)
    then have "\<not> (\<forall>i \<le> ?m. \<not> float_lt (?d i) PosInf)" by blast
    moreover have "best_match_position ar query reference \<noteq> Inr (- 1, PosInf)"
      using p(2) by simp
    ultimately show ?thesis by simp
  qed
qed

theorem best_match_position_sentinel_witness:
  "length [Num (1 / 4), Num (1 / 2)] < length [Num (1 / 4), Num (1 / 2), Num (3 / 4)] \<and>
   best_match_position exact [Num (1 / 4), Num (1 / 2), Num (3 / 4)] [Num (1 / 4), Num (1 / 2)]
     = Inr (- 1, PosInf) \<and>
   l1_distance exact [Num (1 / 4), Num (1 / 2), Num (3 / 4)] [Num (1 / 4), Num (1 / 2)] 0
     = Inl IndexError \<and>
   length [Num (1 / 4)] \<le> length [Num (1 / 2)] \<and>
   float_lt (l1_window exact [Num (1 / 4)] [Num (1 / 2)] 0) PosInf \<and>
   best_match_position exact [Num (1 / 4)] [Num (1 / 2)] \<noteq> Inr (- 1, PosInf)"
proof -
  have w: "float_lt (l1_window exact [Num (1 / 4)] [Num (1 / 2)] 0) PosInf"
    by (simp add: eval_match)
  then have "\<not> (\<forall>i \<le> length [Num (1 / 2)] - length [Num (1 / 4)].
      \<not> float_lt (l1_window exact [Num (1 / 4)] [Num (1 / 2)] i) PosInf)"
    by simp
  with best_match_position_sentinel [of "[Num (1 / 2)]" "[Num (1 / 4)]" exact]
  have a: "best_match_position exact [Num (1 / 4)] [Num (1 / 2)] \<noteq> Inr (- 1, PosInf)"
    by simp
  from best_match_position_sentinel
    [of "[Num (1 / 4), Num (1 / 2)]" "[Num (1 / 4), Num (1 / 2), Num (3 / 4)]" exact]
  have b: "best_match_position exact [Num (1 / 4), Num (1 / 2), Num (3 / 4)]
      [Num (1 / 4), Num (1 / 2)] = Inr (- 1, PosInf)"
    and c: "l1_distance exact [Num (1 / 4), Num (1 / 2), Num (3 / 4)]
      [Num (1 / 4), Num (1 / 2)] 0 = Inl IndexError"
    by simp_all
  from a b c w show ?thesis by simp
qed

text \<open>
  C5, as the claim states it, fails in its \<open>only if\<close> half: the query \<open>[nan]\<close> is as
  long as the reference \<open>[0.5]\<close>, the distance of the only window is NaN, which is not
  below \<open>inf\<close>, and the sentinel is returned.
\<close>

theorem best_match_position_sentinel_nan:
  "\<not> length [Num (1 / 2)] < length [NaN] \<and>
   l1_window exact [NaN] [Num (1 / 2)] 0 = NaN \<and>
   best_match_position exact [NaN] [Num (1 / 2)] = Inr (- 1, PosInf)"
  by (simp add: eval_match)

text \<open>
  C6. \<open>find_best_video\<close> returns the sentinel triple \<open>(-1, -1, +inf)\<close> whenever
  every reference is shorter than the query; an empty reference list is the case of no
  reference at all.
\<close>

theorem find_best_video_sentinel:
  "\<forall>r \<in> set references. length r < length query \<Longrightarrow>
   find_best_video ar query references = Inr (- 1, - 1, PosInf)"
  by (simp add: find_best_video_def scan_videos_all_short)

theorem find_best_video_sentinel_witness:
  "length [Num (1 / 10), Num (2 / 10)] < length [Num (1 / 10), Num (2 / 10), Num (3 / 10)] \<and>
   find_best_video exact [Num (1 / 10), Num (2 / 10), Num (3 / 10)]
     [[Num (1 / 10), Num (2 / 10)], []] = Inr (- 1, - 1, PosInf) \<and>
   find_best_video exact [Num (1 / 10)] [] = Inr (- 1, - 1, PosInf)"
  using find_best_video_sentinel
      [of "[[Num (1 / 10), Num (2 / 10)], []]" "[Num (1 / 10), Num (2 / 10), Num (3 / 10)]" exact]
    find_best_video_sentinel [of "[]" "[Num (1 / 10)]" exact]
  by simp

text \<open>
  C10. The empty query matches every reference, the empty one included, at offset 0 with
  distance 0, and against a non-empty reference list \<open>find_best_video\<close> returns
  \<open>(0, 0, 0)\<close>.
\<close>

theorem empty_query_matches:
  "best_match_position ar [] reference = Inr (0, Num 0) \<and>
   (references \<noteq> [] \<longrightarrow> find_best_video ar [] references = Inr (0, 0, Num 0))"
proof (cases references)
  case Nil
  then show ?thesis by (simp add: best_match_position_empty_query)
next
  case (Cons r rs)
  then show ?thesis
    by (simp add: best_match_position_empty_query find_best_video_def scan_videos_zero)
qed

theorem empty_query_matches_witness:
  "[[Num (1 / 2)], [] :: pyfloat list] \<noteq> [] \<and>
   best_match_position exact [] [] = Inr (0, Num 0) \<and>
   find_best_video exact [] [[Num (1 / 2)], []] = Inr (0, 0, Num 0)"
  using empty_query_matches [of exact "[]" "[[Num (1 / 2)], []]"]
  by simp

section \<open>Properties of the store\<close>

lemma digit_char_props:
  assumes "d < 10"
  shows "ascii_digit (digit_char d)" "digit_val (digit_char d) = d"
proof -
  from assms have "d \<in> {0, 1, 2, 3, 4, 5, 6, 7, 8, 9}" by auto
  then show "ascii_digit (digit_char d)" "digit_val (digit_char d) = d"
    by (auto simp: digit_char_def ascii_digit_def digit_val_def)
qed

lemma digit_char_zero: "d < 10 \<Longrightarrow> digit_char d = CHR ''0'' \<Longrightarrow> d = 0"
  using digit_char_props(2) [of d] by (simp add: digit_val_def)

lemma ascii_digit_not_sep: "ascii_digit c \<Longrightarrow> c \<noteq> CHR ''.'' \<and> c \<noteq> CHR '',''"
  by (auto simp: ascii_digit_def)

lemma str_nat_digits: "list_all ascii_digit (str_nat n)"
proof (induction n rule: str_nat.induct)
  case (1 n)
  show ?case
  proof (cases "n < 10")
    case True
    then show ?thesis by (subst str_nat.simps) (simp add: digit_char_props)
  next
    case False
    with 1 have "list_all ascii_digit (str_nat (n div 10))" by simp
    with False show ?thesis by (subst str_nat.simps) (simp add: digit_char_props)
  qed
qed

lemma str_nat_nonempty: "str_nat n \<noteq> []"
  by (subst str_nat.simps) simp

lemma int_of_digits_snoc:
  "int_of_digits (ds @ [c]) = 10 * int_of_digits ds + digit_val c"
  by (simp add: int_of_digits_def)

lemma int_of_digits_str_nat: "int_of_digits (str_nat n) = n"
proof (induction n rule: str_nat.induct)
  case (1 n)
  show ?case
  proof (cases "n < 10")
    case True
    then show ?thesis
      by (subst str_nat.simps) (simp add: int_of_digits_def digit_char_props)
  next
    case False
    with 1 have "int_of_digits (str_nat (n div 10)) = n div 10" by simp
    with False show ?thesis
      by (subst str_nat.simps) (simp add: int_of_digits_snoc digit_char_props)
  qed
qed

lemma int_of_digits_single: "b < 10 \<Longrightarrow> int_of_digits [digit_char b] = b"
  by (simp add: int_of_digits_def digit_char_props)

lemma str_nat_zero: "str_nat n = ''0'' \<Longrightarrow> n = 0"
proof -
  assume "str_nat n = ''0''"
  then have "int_of_digits (str_nat n) = int_of_digits ''0''" by simp
  moreover have "int_of_digits ''0'' = 0" by (simp add: int_of_digits_def digit_val_def)
  ultimately show ?thesis by (simp only: int_of_digits_str_nat)
qed

lemma str_nat_hd: "str_nat n = ''0'' \<or> hd (str_nat n) \<noteq> CHR ''0''"
proof (induction n rule: str_nat.induct)
  case (1 n)
  show ?case
  proof (cases "n < 10")
    case small: True
    have eq: "str_nat n = [digit_char n]" using small by (subst str_nat.simps) simp
    show ?thesis
    proof (cases "n = 0")
      case True
      have "digit_char 0 = CHR ''0''" by (simp add: digit_char_def)
      with True eq show ?thesis by simp
    next
      case False
      with small digit_char_zero [of n] show ?thesis by (auto simp: eq)
    qed
  next
    case False
    then have eq: "str_nat n = str_nat (n div 10) @ [digit_char (n mod 10)]"
      by (subst str_nat.simps) simp
    from False have "n div 10 \<noteq> 0" by simp
    then have "str_nat (n div 10) \<noteq> ''0''" by (metis str_nat_zero)
    with 1 False have "hd (str_nat (n div 10)) \<noteq> CHR ''0''" by simp
    then show ?thesis by (simp add: eq str_nat_nonempty)
  qed
qed

lemma str_nat_json_int: "json_int (str_nat n)"
  using str_nat_hd [of n] by (auto simp: json_int_def str_nat_nonempty str_nat_digits)

lemma str_nat_no_sep: "c \<in> set (str_nat n) \<Longrightarrow> c \<noteq> CHR ''.'' \<and> c \<noteq> CHR '',''"
  using str_nat_digits [of n] by (auto simp: list_all_iff ascii_digit_not_sep)

lemma tenths: "real (k div 10) + real (k mod 10) / 10 = real k / 10"
proof -
  have "real k = real (10 * (k div 10) + k mod 10)" by simp
  also have "\<dots> = 10 * real (k div 10) + real (k mod 10)" by (simp only: of_nat_add of_nat_mult of_nat_numeral)
  finally show ?thesis by simp
qed

lemma parse_number_repr:
  assumes "b < 10"
  shows "parse_number (str_nat a @ ''.'' @ [digit_char b]) = Inr (real a + real b / 10)"
proof -
  have P: "\<And>c. c \<in> set (str_nat a) \<Longrightarrow> c \<noteq> CHR ''.''" using str_nat_no_sep by blast
  have tw: "takeWhile (\<lambda>c. c \<noteq> CHR ''.'') (str_nat a @ ''.'' @ [digit_char b]) = str_nat a"
    using P by simp
  have dw: "dropWhile (\<lambda>c. c \<noteq> CHR ''.'') (str_nat a @ ''.'' @ [digit_char b]) = ''.'' @ [digit_char b]"
    using P by simp
  show ?thesis
    unfolding parse_number_def tw dw
    using assms
    by (simp add: str_nat_json_int int_of_digits_str_nat int_of_digits_single digit_char_props)
qed

lemma fingerprint_value_tenths:
  assumes "fingerprint_value v"
  shows "\<exists>k::nat. v = real k / 10"
proof -
  from assms have v: "0 \<le> v" "py_round1 v = v" by (simp_all add: fingerprint_value_def)
  then have "0 \<le> round_half_even (v * 10)" by (intro round_half_even_nonneg) simp
  then obtain k :: nat where "round_half_even (v * 10) = int k"
    using nonneg_int_cases by blast
  with v(2) have "v = real k / 10" by (simp add: py_round1_def)
  then show ?thesis ..
qed

lemma float_repr_tenths:
  "float_repr (real k / 10) = str_nat (k div 10) @ ''.'' @ [digit_char (k mod 10)]"
  by (simp add: float_repr_def)

lemma parse_float_repr:
  assumes "fingerprint_value v"
  shows "parse_number (float_repr v) = Inr v"
proof -
  from fingerprint_value_tenths [OF assms] obtain k :: nat where k: "v = real k / 10" ..
  show ?thesis
    unfolding k float_repr_tenths
    by (simp add: parse_number_repr tenths del: append.simps)
qed

lemma float_repr_no_comma:
  assumes "fingerprint_value v"
  shows "CHR '','' \<notin> set (float_repr v)"
proof -
  from fingerprint_value_tenths [OF assms] obtain k :: nat where k: "v = real k / 10" ..
  have "digit_char (k mod 10) \<noteq> CHR '',''"
    using digit_char_props(1) [of "k mod 10"] ascii_digit_not_sep by auto
  then show ?thesis
    unfolding k float_repr_tenths using str_nat_no_sep by auto
qed

lemma float_repr_nonempty: "float_repr v \<noteq> []"
  by (simp add: float_repr_def Let_def)

lemma split_on_no_sep: "sep \<notin> set t \<Longrightarrow> split_on sep t = [t]"
  by (induction t) auto

lemma split_on_append:
  "sep \<notin> set t \<Longrightarrow> split_on sep (t @ sep # rest) = t # split_on sep rest"
  by (induction t) auto

lemma split_on_join:
  "toks \<noteq> [] \<Longrightarrow> (\<And>t. t \<in> set toks \<Longrightarrow> CHR '','' \<notin> set t) \<Longrightarrow>
   split_on CHR '','' (join_comma toks) = toks"
proof (induction toks rule: join_comma.induct)
  case 1
  then show ?case by simp
next
  case (2 t)
  then show ?case by (simp add: split_on_no_sep)
next
  case (3 t u us)
  then show ?case by (simp add: split_on_append)
qed

lemma join_comma_nonempty: "toks \<noteq> [] \<Longrightarrow> [] \<notin> set toks \<Longrightarrow> join_comma toks \<noteq> []"
  by (induction toks rule: join_comma.induct) auto

lemma map_result_map:
  "(\<And>x. x \<in> set xs \<Longrightarrow> f (g x) = Inr x) \<Longrightarrow> map_result f (map g xs) = Inr xs"
  by (induction xs) simp_all

lemma json_round_trip:
  assumes "\<And>v. v \<in> set fingerprint \<Longrightarrow> fingerprint_value v"
  shows "json_loads (json_dumps fingerprint) = Inr fingerprint"
proof (cases "fingerprint = []")
  case True
  then show ?thesis by (simp add: json_dumps_def json_loads_def)
next
  case False
  let ?toks = "map float_repr fingerprint"
  have ne: "join_comma ?toks \<noteq> []"
  proof (rule join_comma_nonempty)
    show "?toks \<noteq> []" using False by simp
    show "[] \<notin> set ?toks" by (metis ex_map_conv float_repr_nonempty)
  qed
  have sp: "split_on CHR '','' (join_comma ?toks) = ?toks"
    using False assms by (intro split_on_join) (auto simp: float_repr_no_comma)
  have mr: "map_result parse_number ?toks = Inr fingerprint"
    using assms by (intro map_result_map) (simp add: parse_float_repr)
  show ?thesis
    using ne by (simp add: json_dumps_def json_loads_def sp mr)
qed

lemma save_fingerprint_result:
  "save_fingerprint fingerprint video_index directory fs =
     Inr ((mkdir fs directory)(directory \<mapsto>
        AList.update (snd (path_for video_index directory)) (json_dumps fingerprint)
          (the (mkdir fs directory directory))))"
  by (simp add: save_fingerprint_def write_text_def mkdir_def path_for_def split: option.splits)

lemma read_after_write:
  "write_text fs path text = Inr fs' \<Longrightarrow> read_text fs' path = Inr text"
  by (auto simp: write_text_def read_text_def update_conv' split: option.splits)

lemma save_fingerprint_total:
  "\<exists>fs'. save_fingerprint fingerprint video_index directory fs = Inr fs'"
  by (simp add: save_fingerprint_result)

text \<open>
  The fingerprints the extractor returns from samples normalised to \<open>[-1, 1]\<close> are
  within the range of \<open>fingerprint_value\<close>.
\<close>

lemma round_half_even_upper: "real_of_int (round_half_even z) \<le> z + 1"
proof -
  have f: "real_of_int \<lfloor>z\<rfloor> \<le> z" by simp
  have "round_half_even z = \<lfloor>z\<rfloor> \<or> round_half_even z = \<lfloor>z\<rfloor> + 1"
    by (simp add: round_half_even_def Let_def)
  then show ?thesis
  proof
    assume "round_half_even z = \<lfloor>z\<rfloor>"
    then have "real_of_int (round_half_even z) = real_of_int \<lfloor>z\<rfloor>" by (simp only:)
    with f show ?thesis by linarith
  next
    assume "round_half_even z = \<lfloor>z\<rfloor> + 1"
    then have "real_of_int (round_half_even z) = real_of_int \<lfloor>z\<rfloor> + 1" by simp
    with f show ?thesis by linarith
  qed
qed

lemma py_round1_upper: "py_round1 x \<le> x + 1 / 10"
  using round_half_even_upper [of "x * 10"] by (simp add: py_round1_def field_simps)

lemma fold_max_le:
  fixes a b :: real
  shows "a \<le> b \<Longrightarrow> (\<And>x. x \<in> set xs \<Longrightarrow> x \<le> b) \<Longrightarrow> fold max xs a \<le> b"
  by (induction xs arbitrary: a) simp_all

lemma chunk_peak_upper:
  assumes "chunk_peak c = Inr v" "\<And>x. x \<in> set c \<Longrightarrow> \<bar>x\<bar> \<le> b"
  shows "v \<le> b + 1 / 10"
proof (cases c)
  case Nil
  with assms(1) show ?thesis by simp
next
  case (Cons x xs)
  with assms(1) have v: "v = py_round1 (fold max (map abs xs) \<bar>x\<bar>)" by simp
  have "fold max (map abs xs) \<bar>x\<bar> \<le> b"
    using assms(2) Cons by (intro fold_max_le) auto
  with py_round1_upper [of "fold max (map abs xs) \<bar>x\<bar>"] show ?thesis
    unfolding v by linarith
qed

lemma chunks_of_subset: "c \<in> set (chunks_of y sr) \<Longrightarrow> set c \<subseteq> set y"
  by (auto simp: chunks_of_def dest: in_set_takeD in_set_dropD)

lemma extract_fingerprint_storable:
  assumes "extract_fingerprint y sr = Inr fp" "\<And>x. x \<in> set y \<Longrightarrow> \<bar>x\<bar> \<le> 1" "v \<in> set fp"
  shows "fingerprint_value v"
proof -
  from assms(1) have "map_result chunk_peak (butlast (chunks_of y sr)) = Inr fp"
    by (simp add: extract_fingerprint_def Let_def split: if_splits)
  from map_result_set [OF this assms(3)] obtain c
    where c: "c \<in> set (butlast (chunks_of y sr))" "chunk_peak c = Inr v"
    by blast
  from c(1) have "c \<in> set (chunks_of y sr)" by (rule in_set_butlastD)
  then have "set c \<subseteq> set y" by (rule chunks_of_subset)
  with assms(2) have "\<And>x. x \<in> set c \<Longrightarrow> \<bar>x\<bar> \<le> 1" by blast
  with c(2) have "v \<le> 1 + 1 / 10" by (rule chunk_peak_upper)
  then have "v < 10 ^ 16" by simp
  with chunk_peak_value [OF c(2)] show ?thesis by (simp add: fingerprint_value_def)
qed

text \<open>
  C7. Saving a fingerprint under a video index and loading that index again returns the
  fingerprint, for every index, directory and earlier state of the file system.
\<close>

theorem save_load_round_trip:
  assumes "\<forall>v\<in>set fingerprint. fingerprint_value v"
  shows "\<exists>fs'. save_fingerprint fingerprint video_index directory fs = Inr fs' \<and>
           load_fingerprint video_index directory fs' = Inr fingerprint"
proof -
  obtain fs' where s: "save_fingerprint fingerprint video_index directory fs = Inr fs'"
    using save_fingerprint_total by blast
  then have "read_text fs' (path_for video_index directory) = Inr (json_dumps fingerprint)"
    unfolding save_fingerprint_def by (rule read_after_write)
  then have "load_fingerprint video_index directory fs' = Inr fingerprint"
    using assms by (simp add: load_fingerprint_def json_round_trip)
  with s show ?thesis by blast
qed

text \<open>The equations that evaluate the store on concrete values.\<close>

lemmas eval_store =
  save_fingerprint_def mkdir_def write_text_def read_text_def load_fingerprint_def path_for_def
  str_int_def str_nat.simps digit_char_def json_dumps_def float_repr_def

theorem save_load_round_trip_witness:
  "list_all fingerprint_value [1 / 10, 4 / 10, 9 / 10, 2 / 10] \<and>
   save_fingerprint [1 / 10, 4 / 10, 9 / 10, 2 / 10] 3 ''fingerprints'' Map.empty =
     Inr [''fingerprints'' \<mapsto> [(map Ascii ''video3.json'', ''[0.1,0.4,0.9,0.2]'')]] \<and>
   load_fingerprint 3 ''fingerprints''
     [''fingerprints'' \<mapsto> [(map Ascii ''video3.json'', ''[0.1,0.4,0.9,0.2]'')]] =
     Inr [1 / 10, 4 / 10, 9 / 10, 2 / 10]"
proof -
  have v: "list_all fingerprint_value [1 / 10, 4 / 10, 9 / 10, 2 / 10]"
    by (simp add: fingerprint_value_def py_round1_def round_half_even_def)
  then have h: "\<forall>v\<in>set [1 / 10, 4 / 10, 9 / 10, 2 / 10]. fingerprint_value v"
    by (simp only: list_all_iff)
  have s: "save_fingerprint [1 / 10, 4 / 10, 9 / 10, 2 / 10] 3 ''fingerprints'' Map.empty =
     Inr [''fingerprints'' \<mapsto> [(map Ascii ''video3.json'', ''[0.1,0.4,0.9,0.2]'')]]"
    by (simp add: eval_store)
  from save_load_round_trip [OF h, of 3 "''fingerprints''" Map.empty] v s
  show ?thesis by simp
qed

lemma path_stem_json:
  assumes "x \<noteq> []"
  shows "path_stem (x @ map Ascii ''.json'') = x"
proof -
  have "takeWhile (\<lambda>c. c \<noteq> Ascii CHR ''.'') (rev (x @ map Ascii ''.json'')) = map Ascii ''nosj''"
    by simp
  then show ?thesis using assms
    by (simp add: path_stem_def Let_def)
qed

lemma filter_isdigit_ascii:
  "list_all ascii_digit ds \<Longrightarrow> filter py_isdigit (map Ascii ds) = map Ascii ds"
  by (induction ds) simp_all

lemma digits_value_ascii:
  "list_all ascii_digit ds \<Longrightarrow>
   digits_value acc (map Ascii ds) = Inr (foldl (\<lambda>a c. 10 * a + digit_val c) acc ds)"
  by (induction ds arbitrary: acc) simp_all

lemma py_int_str_nat: "py_int (map Ascii (str_nat n)) = Inr (int n)"
proof -
  have "digits_value 0 (map Ascii (str_nat n)) = Inr (int_of_digits (str_nat n))"
    unfolding int_of_digits_def by (rule digits_value_ascii) (rule str_nat_digits)
  then show ?thesis
    by (simp add: py_int_def str_nat_nonempty int_of_digits_str_nat)
qed

lemma file_name_nat:
  "snd (path_for (int n) directory) = (map Ascii ''video'' @ map Ascii (str_nat n)) @ map Ascii ''.json''"
  by (simp add: path_for_def str_int_def)

lemma index_of_path_for: "index_of (snd (path_for (int n) directory)) = Inr (int n)"
proof -
  have stem: "path_stem ((map Ascii ''video'' @ map Ascii (str_nat n)) @ map Ascii ''.json'') =
      map Ascii ''video'' @ map Ascii (str_nat n)"
    by (rule path_stem_json) simp
  have digits: "filter py_isdigit (map Ascii ''video'' @ map Ascii (str_nat n)) =
      map Ascii (str_nat n)"
    by (simp add: filter_isdigit_ascii str_nat_digits ascii_digit_def)
  show ?thesis
    unfolding file_name_nat index_of_def stem digits Let_def
    by (simp add: str_nat_nonempty py_int_str_nat)
qed

lemma glob_path_for: "glob_video_json (snd (path_for i directory))"
proof -
  have "str_int i \<noteq> []" by (simp add: str_int_def str_nat_nonempty)
  then have "1 \<le> length (str_int i)" by (cases "str_int i") simp_all
  then show ?thesis by (simp add: glob_video_json_def path_for_def)
qed

lemma map_result_map2:
  "(\<And>x. x \<in> set xs \<Longrightarrow> f (g x) = Inr (h x)) \<Longrightarrow> map_result f (map g xs) = Inr (map h xs)"
  by (induction xs) simp_all

lemma map_result_each:
  "(\<And>x. x \<in> set xs \<Longrightarrow> f x = Inr (h x)) \<Longrightarrow> map_result f xs = Inr (map h xs)"
  by (induction xs) simp_all

lemma insort_key_decorate:
  "insort_key fst (g x, x) (map (\<lambda>y. (g y, y)) ys) = map (\<lambda>y. (g y, y)) (insort_key g x ys)"
  by (induction ys) simp_all

lemma sort_key_decorate:
  "map snd (sort_key fst (zip (map g xs) xs)) = sort_key g xs"
proof -
  have z: "zip (map g xs) xs = map (\<lambda>y. (g y, y)) xs" by (induction xs) simp_all
  have "sort_key fst (map (\<lambda>y. (g y, y)) xs) = map (\<lambda>y. (g y, y)) (sort_key g xs)"
    by (induction xs) (simp_all add: insort_key_decorate)
  then show ?thesis by (simp add: z comp_def)
qed

lemma load_all_missing: "fs directory = None \<Longrightarrow> load_all_fingerprints directory fs = Inr []"
  by (simp add: load_all_fingerprints_def)

lemma load_all_no_match:
  "fs directory = Some es \<Longrightarrow> (\<And>name. name \<in> set (map fst es) \<Longrightarrow> \<not> glob_video_json name) \<Longrightarrow>
   load_all_fingerprints directory fs = Inr []"
proof -
  assume a: "fs directory = Some es"
    and b: "\<And>name. name \<in> set (map fst es) \<Longrightarrow> \<not> glob_video_json name"
  from b have "filter glob_video_json (map fst es) = []"
    by (simp add: filter_empty_conv)
  with a show ?thesis by (simp add: load_all_fingerprints_def)
qed

lemma load_all_records:
  fixes names :: "pychar list list" and key :: "pychar list \<Rightarrow> int"
    and fp :: "pychar list \<Rightarrow> real list"
  assumes dir: "fs directory = Some es"
    and dn: "distinct (map fst es)"
    and recs: "mset (filter (\<lambda>e. glob_video_json (fst e)) es) =
        mset (map (\<lambda>n. (n, json_dumps (fp n))) names)"
    and keys: "\<And>n. n \<in> set names \<Longrightarrow> index_of n = Inr (key n)"
    and dk: "distinct (map key names)"
    and vals: "\<And>n v. n \<in> set names \<Longrightarrow> v \<in> set (fp n) \<Longrightarrow> fingerprint_value v"
  shows "load_all_fingerprints directory fs = Inr (map fp (sort_key key names))"
proof -
  let ?rec = "\<lambda>n. (n, json_dumps (fp n))"
  let ?matching = "filter glob_video_json (map fst es)"
  let ?load = "\<lambda>name. case read_text fs (directory, name) of
                           Inl e \<Rightarrow> Inl e
                         | Inr text \<Rightarrow> json_loads text"
  have m1: "?matching = map fst (filter (\<lambda>e. glob_video_json (fst e)) es)"
    by (simp add: filter_map comp_def)
  have "mset ?matching = image_mset fst (mset (filter (\<lambda>e. glob_video_json (fst e)) es))"
    by (simp add: m1)
  also have "\<dots> = image_mset fst (mset (map ?rec names))" by (simp only: recs)
  also have "\<dots> = mset (map fst (map ?rec names))" by (simp only: mset_map)
  also have "map fst (map ?rec names) = names" by (simp add: comp_def)
  finally have perm0: "mset ?matching = mset names" .
  then have perm: "mset ?matching = mset (sort_key key names)" by simp
  from perm0 have sets: "set ?matching = set names" by (rule mset_eq_setD)
  have "map_result index_of ?matching = Inr (map key ?matching)"
    by (rule map_result_each) (simp only: sets keys)
  moreover have "map snd (sort_key fst (zip (map key ?matching) ?matching)) =
      sort_key key ?matching"
    by (rule sort_key_decorate)
  moreover have "sort_key key ?matching = sort_key key names"
  proof (rule sort_key_inj_key_eq)
    show "mset ?matching = mset (sort_key key names)" by (rule perm)
    show "inj_on key (set ?matching)"
      unfolding sets using dk by (simp add: distinct_map)
    show "sorted (map key (sort_key key names))" by simp
  qed
  ultimately have paths: "load_all_fingerprints directory fs =
      map_result ?load (sort_key key names)"
    using dir by (simp add: load_all_fingerprints_def)
  have each: "?load n = Inr (fp n)" if "n \<in> set (sort_key key names)" for n
  proof -
    from that have n: "n \<in> set names" by simp
    then have "?rec n \<in># mset (map ?rec names)" by simp
    then have "?rec n \<in># mset (filter (\<lambda>e. glob_video_json (fst e)) es)"
      by (simp only: recs)
    then have "?rec n \<in> set es" by simp
    with dn have "map_of es n = Some (json_dumps (fp n))" by simp
    with dir have "read_text fs (directory, n) = Inr (json_dumps (fp n))"
      by (simp add: read_text_def)
    moreover have "json_loads (json_dumps (fp n)) = Inr (fp n)"
      using vals [OF n] by (rule json_round_trip)
    ultimately show ?thesis by simp
  qed
  have "map_result ?load (sort_key key names) = Inr (map fp (sort_key key names))"
    using each by (rule map_result_each)
  with paths show ?thesis by simp
qed

lemma load_all_reordered:
  fixes names :: "pychar list list" and key :: "pychar list \<Rightarrow> int"
    and fp :: "pychar list \<Rightarrow> real list"
  assumes dir: "fs directory = Some es" and dir': "fs' directory = Some es'"
    and perm: "mset es' = mset es"
    and dn: "distinct (map fst es)"
    and recs: "mset (filter (\<lambda>e. glob_video_json (fst e)) es) =
        mset (map (\<lambda>n. (n, json_dumps (fp n))) names)"
    and keys: "\<And>n. n \<in> set names \<Longrightarrow> index_of n = Inr (key n)"
    and dk: "distinct (map key names)"
    and vals: "\<And>n v. n \<in> set names \<Longrightarrow> v \<in> set (fp n) \<Longrightarrow> fingerprint_value v"
  shows "load_all_fingerprints directory fs' = Inr (map fp (sort_key key names))"
proof -
  have "mset (map fst es') = mset (map fst es)" using perm by (simp only: mset_map)
  then have "distinct (map fst es') = distinct (map fst es)" by (rule mset_eq_imp_distinct_iff)
  with dn have dn': "distinct (map fst es')" by simp
  have "mset (filter (\<lambda>e. glob_video_json (fst e)) es') =
      mset (filter (\<lambda>e. glob_video_json (fst e)) es)"
    using perm by (simp only: mset_filter)
  with recs have recs': "mset (filter (\<lambda>e. glob_video_json (fst e)) es') =
        mset (map (\<lambda>n. (n, json_dumps (fp n))) names)" by simp
  show ?thesis
    using dir' dn' recs' keys dk vals
    by (rule load_all_records [where fs = fs' and es = es' and names = names and key = key
          and fp = fp])
qed

text \<open>The equations that evaluate \<open>load_all_fingerprints\<close> on concrete values.\<close>

lemmas eval_load =
  load_all_fingerprints_def glob_video_json_def index_of_def path_stem_def py_int_def
  ascii_digit_def digit_val_def read_text_def json_loads_def parse_number_def json_int_def
  int_of_digits_def Let_def

text \<open>
  C8, as the code has it. \<open>load_all_fingerprints\<close> returns the empty list for a
  directory that does not exist or holds no name matching \<open>video*.json\<close>. When the
  matching records hold saved fingerprints and the indices read from their names are
  pairwise distinct, it returns the fingerprints in ascending order of those indices, and
  returns the same for every other order in which the file system lists the directory.
\<close>

theorem load_all_fingerprints_sorted:
  fixes names :: "pychar list list" and key :: "pychar list \<Rightarrow> int"
    and fp :: "pychar list \<Rightarrow> real list"
  shows
   "(fs directory = None \<longrightarrow> load_all_fingerprints directory fs = Inr []) \<and>
    (fs directory = Some es \<and> (\<forall>name\<in>set (map fst es). \<not> glob_video_json name) \<longrightarrow>
       load_all_fingerprints directory fs = Inr []) \<and>
    (fs directory = Some es \<and> fs' directory = Some es' \<and> mset es' = mset es \<and>
     distinct (map fst es) \<and>
     mset (filter (\<lambda>e. glob_video_json (fst e)) es) =
       mset (map (\<lambda>n. (n, json_dumps (fp n))) names) \<and>
     (\<forall>n\<in>set names. index_of n = Inr (key n)) \<and> distinct (map key names) \<and>
     (\<forall>n\<in>set names. \<forall>v\<in>set (fp n). fingerprint_value v) \<longrightarrow>
       load_all_fingerprints directory fs = Inr (map fp (sort_key key names)) \<and>
       load_all_fingerprints directory fs' = Inr (map fp (sort_key key names)))"
proof (intro conjI impI)
  assume "fs directory = None"
  then show "load_all_fingerprints directory fs = Inr []" by (rule load_all_missing)
next
  assume "fs directory = Some es \<and> (\<forall>name\<in>set (map fst es). \<not> glob_video_json name)"
  then show "load_all_fingerprints directory fs = Inr []"
    using load_all_no_match [of fs directory es] by blast
next
  assume a: "fs directory = Some es \<and> fs' directory = Some es' \<and> mset es' = mset es \<and>
     distinct (map fst es) \<and>
     mset (filter (\<lambda>e. glob_video_json (fst e)) es) =
       mset (map (\<lambda>n. (n, json_dumps (fp n))) names) \<and>
     (\<forall>n\<in>set names. index_of n = Inr (key n)) \<and> distinct (map key names) \<and>
     (\<forall>n\<in>set names. \<forall>v\<in>set (fp n). fingerprint_value v)"
  then have dir: "fs directory = Some es" and dir': "fs' directory = Some es'"
    and perm: "mset es' = mset es" and dn: "distinct (map fst es)"
    and recs: "mset (filter (\<lambda>e. glob_video_json (fst e)) es) =
       mset (map (\<lambda>n. (n, json_dumps (fp n))) names)"
    and keys: "\<And>n. n \<in> set names \<Longrightarrow> index_of n = Inr (key n)"
    and dk: "distinct (map key names)"
    and vals: "\<And>n v. n \<in> set names \<Longrightarrow> v \<in> set (fp n) \<Longrightarrow> fingerprint_value v"
    by blast+
  show "load_all_fingerprints directory fs = Inr (map fp (sort_key key names))"
    using dir dn recs keys dk vals
    by (rule load_all_records [where fs = fs and es = es and names = names and key = key
          and fp = fp])
  show "load_all_fingerprints directory fs' = Inr (map fp (sort_key key names))"
    using dir dir' perm dn recs keys dk vals
    by (rule load_all_reordered [where fs = fs and es = es and fs' = fs' and es' = es'
          and names = names and key = key and fp = fp])
qed

theorem load_all_fingerprints_sorted_witness:
  "save_fingerprint [3 / 10] 3 ''fingerprints'' Map.empty =
     Inr [''fingerprints'' \<mapsto> [(map Ascii ''video3.json'', ''[0.3]'')]] \<and>
   save_fingerprint [1 / 10, 0] 1 ''fingerprints''
       [''fingerprints'' \<mapsto> [(map Ascii ''video3.json'', ''[0.3]'')]] =
     Inr [''fingerprints'' \<mapsto> [(map Ascii ''video3.json'', ''[0.3]''),
            (map Ascii ''video1.json'', ''[0.1,0.0]'')]] \<and>
   save_fingerprint [2 / 10] 2 ''fingerprints''
       [''fingerprints'' \<mapsto> [(map Ascii ''video3.json'', ''[0.3]''),
            (map Ascii ''video1.json'', ''[0.1,0.0]'')]] =
     Inr [''fingerprints'' \<mapsto> [(map Ascii ''video3.json'', ''[0.3]''),
            (map Ascii ''video1.json'', ''[0.1,0.0]''), (map Ascii ''video2.json'', ''[0.2]'')]] \<and>
   load_all_fingerprints ''fingerprints''
       [''fingerprints'' \<mapsto> [(map Ascii ''video3.json'', ''[0.3]''),
            (map Ascii ''video1.json'', ''[0.1,0.0]''), (map Ascii ''video2.json'', ''[0.2]'')]] =
     Inr [[1 / 10, 0], [2 / 10], [3 / 10]] \<and>
   load_all_fingerprints ''fingerprints''
       [''fingerprints'' \<mapsto> [(map Ascii ''video2.json'', ''[0.2]''),
            (map Ascii ''video3.json'', ''[0.3]''), (map Ascii ''video1.json'', ''[0.1,0.0]'')]] =
     Inr [[1 / 10, 0], [2 / 10], [3 / 10]] \<and>
   load_all_fingerprints ''fingerprints'' Map.empty = Inr []"
proof -
  let ?v1 = "map Ascii ''video1.json''"
  let ?v2 = "map Ascii ''video2.json''"
  let ?v3 = "map Ascii ''video3.json''"
  let ?es = "[(?v3, ''[0.3]''), (?v1, ''[0.1,0.0]''), (?v2, ''[0.2]'')]"
  let ?es' = "[(?v2, ''[0.2]''), (?v3, ''[0.3]''), (?v1, ''[0.1,0.0]'')]"
  let ?fs = "[''fingerprints'' \<mapsto> ?es]"
  let ?fs' = "[''fingerprints'' \<mapsto> ?es']"
  let ?key = "\<lambda>n. if n = ?v3 then 3 else if n = ?v1 then 1 else (2 :: int)"
  let ?fp = "\<lambda>n. if n = ?v3 then [3 / 10] else if n = ?v1 then [1 / 10, 0] else [2 / 10 :: real]"
  have s1: "save_fingerprint [3 / 10] 3 ''fingerprints'' Map.empty =
     Inr [''fingerprints'' \<mapsto> [(?v3, ''[0.3]'')]]"
    by (simp add: eval_store)
  have s2: "save_fingerprint [1 / 10, 0] 1 ''fingerprints''
       [''fingerprints'' \<mapsto> [(?v3, ''[0.3]'')]] =
     Inr [''fingerprints'' \<mapsto> [(?v3, ''[0.3]''), (?v1, ''[0.1,0.0]'')]]"
    by (simp add: eval_store)
  have s3: "save_fingerprint [2 / 10] 2 ''fingerprints''
       [''fingerprints'' \<mapsto> [(?v3, ''[0.3]''), (?v1, ''[0.1,0.0]'')]] = Inr ?fs"
    by (simp add: eval_store)
  have perm: "mset ?es' = mset ?es" by simp
  have dn: "distinct (map fst ?es)" by simp
  have recs: "mset (filter (\<lambda>e. glob_video_json (fst e)) ?es) =
       mset (map (\<lambda>n. (n, json_dumps (?fp n))) [?v3, ?v1, ?v2])"
    by (simp add: glob_video_json_def eval_store)
  have keys: "\<forall>n\<in>set [?v3, ?v1, ?v2]. index_of n = Inr (?key n)"
    by (simp add: eval_load)
  have dk: "distinct (map ?key [?v3, ?v1, ?v2])" by simp
  have vals: "\<forall>n\<in>set [?v3, ?v1, ?v2]. \<forall>v\<in>set (?fp n). fingerprint_value v"
    by (simp add: fingerprint_value_def py_round1_def round_half_even_def)
  have srt: "map ?fp (sort_key ?key [?v3, ?v1, ?v2]) = [[1 / 10, 0], [2 / 10], [3 / 10]]"
    by simp
  from load_all_fingerprints_sorted
    [of ?fs "''fingerprints''" ?es ?fs' ?es' ?fp "[?v3, ?v1, ?v2]" ?key]
    perm dn recs keys dk vals
  have "load_all_fingerprints ''fingerprints'' ?fs = Inr (map ?fp (sort_key ?key [?v3, ?v1, ?v2])) \<and>
    load_all_fingerprints ''fingerprints'' ?fs' = Inr (map ?fp (sort_key ?key [?v3, ?v1, ?v2]))"
    by (simp only: fun_upd_same simp_thms)
  then have l: "load_all_fingerprints ''fingerprints'' ?fs = Inr [[1 / 10, 0], [2 / 10], [3 / 10]]"
    and l': "load_all_fingerprints ''fingerprints'' ?fs' = Inr [[1 / 10, 0], [2 / 10], [3 / 10]]"
    by (simp_all only: srt)
  from load_all_fingerprints_sorted
    [of Map.empty "''fingerprints''" "[]" Map.empty "[]" ?fp "[]" ?key]
  have e: "load_all_fingerprints ''fingerprints'' Map.empty = Inr []" by simp
  from s1 s2 s3 l l' e show ?thesis by (simp only: simp_thms)
qed

text \<open>
  C8, as the claim states it for every directory, fails where two names give the same
  index: \<open>video1.json\<close> and \<open>video01.json\<close> both have the index 1, the stable sort
  leaves them in iteration order, and the two orders of the same directory give two
  results.
\<close>

theorem load_all_fingerprints_order_dependent:
  "index_of (map Ascii ''video1.json'') = Inr 1 \<and>
   index_of (map Ascii ''video01.json'') = Inr 1 \<and>
   load_all_fingerprints ''fingerprints''
     [''fingerprints'' \<mapsto> [(map Ascii ''video1.json'', ''[0.1]''),
        (map Ascii ''video01.json'', ''[0.2]'')]] = Inr [[1 / 10], [2 / 10]] \<and>
   load_all_fingerprints ''fingerprints''
     [''fingerprints'' \<mapsto> [(map Ascii ''video01.json'', ''[0.2]''),
        (map Ascii ''video1.json'', ''[0.1]'')]] = Inr [[2 / 10], [1 / 10]]"
  by (simp add: eval_load)

end
